theory Spec2Isabelle
  imports Complex_Main "HOL-Library.Word" "HOL-Library.Multiset" "HOL-Library.Product_Lexorder"
begin

unbundle bit_operations_syntax

chapter \<open>Search executor and sorted-set container of dragonfly: the model\<close>

section \<open>Errors\<close>

text \<open>
  The C++ code aborts in three ways: \<^verbatim>\<open>DCHECK\<close> (an assertion of debug builds),
  \<^verbatim>\<open>CHECK\<close> (an assertion of every build) and \<^verbatim>\<open>LOG(FATAL)\<close>. Each is a value
  of \<open>error\<close>; a function that can abort returns \<open>error + 'a\<close>, with \<open>Inl\<close> the abort.
  \<open>UndefinedBehaviour\<close> marks a call through a null pointer and a call that breaks the
  precondition of a standard library function (an iterator past the end, an index outside
  a vector), and \<open>OutOfRange\<close> the exception \<^verbatim>\<open>absl::Span::subspan\<close> throws for a
  position past the end.
\<close>

datatype error =
    DcheckFailed string
  | CheckFailed string
  | Fatal string
  | UndefinedBehaviour string
  | OutOfRange string

section \<open>Floating-point values\<close>

text \<open>
  A score of a sorted set (\<^verbatim>\<open>core/sorted_map.cc\<close>) is an IEEE-754 double, and the
  distance of two vectors (\<^verbatim>\<open>core/search/search.cc\<close>) an IEEE-754 float. The model is
  the same for both, \<open>float32\<close> being the name of the type where the code has a
  float. It keeps what the code tests: whether a value is
  NaN, infinite or finite, and the order of the values. The sum of two finite values is
  exact in the model (rounding, and overflow to an infinity, are left out); the sum of the
  two infinities of opposite sign, and every sum with a NaN, is NaN. The comparisons
  are those of C++: each is false as soon as one side is NaN, except \<open>!=\<close>. The two zeros
  of IEEE, which compare equal, are one value here.
\<close>

datatype double = NaN | NegInf | Finite real | PosInf

type_synonym float32 = double

fun isnan :: "double \<Rightarrow> bool" where
  "isnan NaN = True"
| "isnan _ = False"

fun dless :: "double \<Rightarrow> double \<Rightarrow> bool" where
  "dless NaN b = False"
| "dless a NaN = False"
| "dless NegInf NegInf = False"
| "dless NegInf b = True"
| "dless (Finite x) NegInf = False"
| "dless (Finite x) (Finite y) = (x < y)"
| "dless (Finite x) PosInf = True"
| "dless PosInf b = False"

definition deq :: "double \<Rightarrow> double \<Rightarrow> bool" where
  "deq a b = (\<not> isnan a \<and> \<not> isnan b \<and> a = b)"

definition dne :: "double \<Rightarrow> double \<Rightarrow> bool" where
  "dne a b = (\<not> deq a b)"

definition dle :: "double \<Rightarrow> double \<Rightarrow> bool" where
  "dle a b = (dless a b \<or> deq a b)"

definition dge :: "double \<Rightarrow> double \<Rightarrow> bool" where
  "dge a b = dle b a"

fun dadd :: "double \<Rightarrow> double \<Rightarrow> double" where
  "dadd NaN b = NaN"
| "dadd a NaN = NaN"
| "dadd PosInf NegInf = NaN"
| "dadd NegInf PosInf = NaN"
| "dadd PosInf b = PosInf"
| "dadd a PosInf = PosInf"
| "dadd NegInf b = NegInf"
| "dadd a NegInf = NegInf"
| "dadd (Finite x) (Finite y) = Finite (x + y)"

section \<open>Doc sets and their merges (core/search/search.cc)\<close>

text \<open>
  \<open>DocId\<close> is an unsigned integer that the executor only compares; it is a \<open>nat\<close> here.
  An \<^verbatim>\<open>IndexResult\<close> is an owned vector or a borrowed compressed set; both are read
  through iterators only, so the model is the sequence of ids it iterates over.
\<close>

type_synonym DocId = nat

datatype LogicOp = AND_op | OR_op

text \<open>\<^verbatim>\<open>std::set_intersection\<close> and \<^verbatim>\<open>std::set_union\<close>, as the standard defines
  them on two ranges: one pass over both, comparing the heads.\<close>

fun set_intersection :: "DocId list \<Rightarrow> DocId list \<Rightarrow> DocId list" where
  "set_intersection [] ys = []"
| "set_intersection (x # xs) [] = []"
| "set_intersection (x # xs) (y # ys) =
     (if x < y then set_intersection xs (y # ys)
      else if y < x then set_intersection (x # xs) ys
      else x # set_intersection xs ys)"

fun set_union :: "DocId list \<Rightarrow> DocId list \<Rightarrow> DocId list" where
  "set_union [] ys = ys"
| "set_union (x # xs) [] = x # xs"
| "set_union (x # xs) (y # ys) =
     (if x < y then x # set_union xs (y # ys)
      else if y < x then y # set_union (x # xs) ys
      else x # set_union xs ys)"

text \<open>\<^verbatim>\<open>BasicSearch::Merge\<close>: the merge of \<open>matched\<close> and \<open>current\<close> is written to
  \<^verbatim>\<open>tmp_vec_\<close> and becomes the new \<open>current\<close>.\<close>

definition Merge :: "DocId list \<Rightarrow> DocId list \<Rightarrow> LogicOp \<Rightarrow> DocId list" where
  "Merge matched current op =
     (if op = AND_op then set_intersection matched current else set_union matched current)"

text \<open>The loop of \<^verbatim>\<open>UnifyResults\<close> over \<^verbatim>\<open>sub_results[1..]\<close>, with \<open>out\<close> the
  accumulator. The order in which the loop works is no part of what it returns, so the
  model keeps a log beside the accumulator: \<open>consumed\<close> holds the sub-results that have
  gone into \<open>out\<close> so far, in that order, and every call of \<open>Merge\<close> appends its
  argument \<open>matched\<close>.\<close>

fun unify_loop_trace ::
  "DocId list list \<Rightarrow> DocId list list \<times> DocId list \<Rightarrow> LogicOp \<Rightarrow> DocId list list \<times> DocId list" where
  "unify_loop_trace [] (consumed, out) op = (consumed, out)"
| "unify_loop_trace (matched # rest) (consumed, out) op =
     unify_loop_trace rest (consumed @ [matched], Merge matched out op) op"

definition unify_loop :: "DocId list list \<Rightarrow> DocId list \<Rightarrow> LogicOp \<Rightarrow> DocId list" where
  "unify_loop rest out op = snd (unify_loop_trace rest ([], out) op)"

text \<open>\<^verbatim>\<open>BasicSearch::UnifyResults\<close>. \<^verbatim>\<open>std::sort\<close> with the comparison of sizes is
  \<open>sort_key length\<close>; \<^verbatim>\<open>std::sort\<close> may order sub-results of equal size differently,
  which \<open>unify_loop_perm\<close> below shows to be irrelevant to the result. The log starts with
  the sub-result that \<open>out\<close> is initialised with, \<^verbatim>\<open>sub_results[0]\<close> after the sort;
  \<open>UnifyResults_trace\<close> returns the log and the result, \<open>UnifyResults\<close> the result.\<close>

definition UnifyResults_trace :: "DocId list list \<Rightarrow> LogicOp \<Rightarrow> DocId list list \<times> DocId list" where
  "UnifyResults_trace sub_results op =
     (if sub_results = [] then ([], [])
      else let sorted_results = sort_key length sub_results
           in unify_loop_trace (tl sorted_results) ([hd sorted_results], hd sorted_results) op)"

definition UnifyResults :: "DocId list list \<Rightarrow> LogicOp \<Rightarrow> DocId list" where
  "UnifyResults sub_results op = snd (UnifyResults_trace sub_results op)"

section \<open>Binary searches of the standard library\<close>

text \<open>
  \<^verbatim>\<open>std::lower_bound\<close>, \<^verbatim>\<open>std::upper_bound\<close> and \<^verbatim>\<open>std::binary_search\<close> as
  the standard library implements them: the range \<open>[first, first + len)\<close> is halved until it
  is empty. The result is an index into the vector.
\<close>

function lower_bound_loop :: "DocId list \<Rightarrow> DocId \<Rightarrow> nat \<Rightarrow> nat \<Rightarrow> nat" where
  "lower_bound_loop xs v first len =
     (if len = 0 then first
      else let half = len div 2; mid = first + half
           in if xs ! mid < v then lower_bound_loop xs v (mid + 1) (len - half - 1)
              else lower_bound_loop xs v first half)"
  by pat_completeness auto
termination
  by (relation "measure (\<lambda>(xs, v, first, len). len)") auto

function upper_bound_loop :: "DocId list \<Rightarrow> DocId \<Rightarrow> nat \<Rightarrow> nat \<Rightarrow> nat" where
  "upper_bound_loop xs v first len =
     (if len = 0 then first
      else let half = len div 2; mid = first + half
           in if v < xs ! mid then upper_bound_loop xs v first half
              else upper_bound_loop xs v (mid + 1) (len - half - 1))"
  by pat_completeness auto
termination
  by (relation "measure (\<lambda>(xs, v, first, len). len)") auto

definition lower_bound :: "DocId list \<Rightarrow> DocId \<Rightarrow> nat" where
  "lower_bound xs v = lower_bound_loop xs v 0 (length xs)"

definition upper_bound :: "DocId list \<Rightarrow> DocId \<Rightarrow> nat" where
  "upper_bound xs v = upper_bound_loop xs v 0 (length xs)"

definition binary_search :: "DocId list \<Rightarrow> DocId \<Rightarrow> bool" where
  "binary_search xs v = (let i = lower_bound xs v in i \<noteq> length xs \<and> \<not> v < xs ! i)"

section \<open>Schema, indices and the query AST\<close>

text \<open>
  The index classes (\<^verbatim>\<open>core/search/indices.h\<close>), the AST (\<^verbatim>\<open>ast_expr.h\<close>) and
  \<^verbatim>\<open>VectorDistance\<close> (\<^verbatim>\<open>vector.h\<close>) are declared outside the files at hand. An index
  is the query function the executor calls on it: \<^verbatim>\<open>Matching\<close> for text and tag indices
  (a null set reads as the empty one, as \<^verbatim>\<open>IndexResult\<close>'s constructor makes it),
  \<^verbatim>\<open>Range\<close> for a numeric index, \<^verbatim>\<open>Get\<close> for a vector index. The executor never
  looks into a range bound \<open>'n\<close> or a vector \<open>'v\<close>, so both are type parameters, and the
  distance function is a parameter \<open>vd\<close> from two vectors to a float, which may be NaN
  (the vectors of the docs and of the query are raw floats of the user).
\<close>

datatype FieldType = TAG | TEXT | NUMERIC | VECTOR

record SchemaField =
  sf_identifier :: string
  sf_type :: FieldType

datatype ('n, 'v) BaseIndex =
    TextIndex "string \<Rightarrow> DocId list"
  | TagIndex "string \<Rightarrow> DocId list"
  | NumericIndex "'n \<Rightarrow> 'n \<Rightarrow> DocId list"
  | VectorIndex "DocId \<Rightarrow> 'v"

record ('n, 'v) FieldIndices =
  schema :: "(string \<times> SchemaField) list"
  all_ids :: "DocId list"
  indices :: "string \<rightharpoonup> ('n, 'v) BaseIndex"

datatype ('n, 'v) AstNode =
    AstEmpty
  | AstStarNode
  | AstTermNode string
  | AstRangeNode 'n 'n
  | AstNegateNode "('n, 'v) AstNode"
  | AstLogicalNode LogicOp "('n, 'v) AstNode list"
  | AstFieldNode string "('n, 'v) AstNode"
  | AstTagsNode "string list"
  | AstKnnNode nat string 'v "('n, 'v) AstNode"

record SearchResult =
  ids :: "DocId list"
  knn_distances :: "float32 list"

text \<open>\<^verbatim>\<open>FieldIndices::GetIndex\<close> and the casts of \<^verbatim>\<open>BasicSearch::GetIndex<T>\<close>. For
  a field without index, or with an index of another type, the cast pointer is null
  (\<open>None\<close>): the debug build fails the \<^verbatim>\<open>DCHECK\<close>, the release build returns the null
  pointer to the caller.\<close>

definition GetIndex :: "('n, 'v) FieldIndices \<Rightarrow> string \<Rightarrow> ('n, 'v) BaseIndex option" where
  "GetIndex fi field = indices fi field"

definition GetTextIndex ::
  "bool \<Rightarrow> ('n, 'v) FieldIndices \<Rightarrow> string \<Rightarrow> error + (string \<Rightarrow> DocId list) option" where
  "GetTextIndex dbg fi field =
     (case GetIndex fi field of
        Some (TextIndex m) \<Rightarrow> Inr (Some m)
      | _ \<Rightarrow> if dbg then Inl (DcheckFailed field) else Inr None)"

definition GetTagIndex ::
  "bool \<Rightarrow> ('n, 'v) FieldIndices \<Rightarrow> string \<Rightarrow> error + (string \<Rightarrow> DocId list) option" where
  "GetTagIndex dbg fi field =
     (case GetIndex fi field of
        Some (TagIndex m) \<Rightarrow> Inr (Some m)
      | _ \<Rightarrow> if dbg then Inl (DcheckFailed field) else Inr None)"

definition GetNumericIndex ::
  "bool \<Rightarrow> ('n, 'v) FieldIndices \<Rightarrow> string \<Rightarrow> error + ('n \<Rightarrow> 'n \<Rightarrow> DocId list) option" where
  "GetNumericIndex dbg fi field =
     (case GetIndex fi field of
        Some (NumericIndex r) \<Rightarrow> Inr (Some r)
      | _ \<Rightarrow> if dbg then Inl (DcheckFailed field) else Inr None)"

definition GetVectorIndex ::
  "bool \<Rightarrow> ('n, 'v) FieldIndices \<Rightarrow> string \<Rightarrow> error + (DocId \<Rightarrow> 'v) option" where
  "GetVectorIndex dbg fi field =
     (case GetIndex fi field of
        Some (VectorIndex g) \<Rightarrow> Inr (Some g)
      | _ \<Rightarrow> if dbg then Inl (DcheckFailed field) else Inr None)"

text \<open>\<^verbatim>\<open>FieldIndices::GetAllTextIndices\<close>: the text indices of the schema's TEXT fields,
  in the order the schema is iterated. A TEXT field whose index is missing or of another
  type fails the \<^verbatim>\<open>DCHECK\<close> of the debug build and puts a null pointer into the
  vector in the release build.\<close>

fun GetAllTextIndices_loop ::
  "bool \<Rightarrow> ('n, 'v) FieldIndices \<Rightarrow> (string \<times> SchemaField) list \<Rightarrow>
   error + (string \<Rightarrow> DocId list) option list" where
  "GetAllTextIndices_loop dbg fi [] = Inr []"
| "GetAllTextIndices_loop dbg fi ((field_name, field_info) # more_fields) =
     (if sf_type field_info \<noteq> TEXT then GetAllTextIndices_loop dbg fi more_fields
      else case GetTextIndex dbg fi field_name of
             Inl e \<Rightarrow> Inl e
           | Inr index \<Rightarrow>
               (case GetAllTextIndices_loop dbg fi more_fields of
                  Inl e \<Rightarrow> Inl e
                | Inr out \<Rightarrow> Inr (index # out)))"

definition GetAllTextIndices ::
  "bool \<Rightarrow> ('n, 'v) FieldIndices \<Rightarrow> error + (string \<Rightarrow> DocId list) option list" where
  "GetAllTextIndices dbg fi = GetAllTextIndices_loop dbg fi (schema fi)"

definition GetAllDocs :: "('n, 'v) FieldIndices \<Rightarrow> DocId list" where
  "GetAllDocs fi = all_ids fi"

section \<open>Adding and removing documents (FieldIndices)\<close>

text \<open>
  \<^verbatim>\<open>FieldIndices::Add\<close> and \<^verbatim>\<open>FieldIndices::Remove\<close>. What \<^verbatim>\<open>Add\<close> and
  \<^verbatim>\<open>Remove\<close> of a single index do to it is code outside the files at hand: the
  parameters \<open>index_Add\<close> and \<open>index_Remove\<close>, called with the doc, the accessor (of a
  type \<open>'acc\<close>) and the identifier of the field. \<^verbatim>\<open>schema_.fields[field]\<close> of a field
  the schema does not have is a default \<^verbatim>\<open>SchemaField\<close>, with an empty identifier.
\<close>

definition field_identifier :: "('n, 'v) FieldIndices \<Rightarrow> string \<Rightarrow> string" where
  "field_identifier fi field =
     (case map_of (schema fi) field of Some info \<Rightarrow> sf_identifier info | None \<Rightarrow> [])"

definition FieldIndices_Add ::
  "(DocId \<Rightarrow> 'acc \<Rightarrow> string \<Rightarrow> ('n, 'v) BaseIndex \<Rightarrow> ('n, 'v) BaseIndex) \<Rightarrow>
   DocId \<Rightarrow> 'acc \<Rightarrow> ('n, 'v) FieldIndices \<Rightarrow> ('n, 'v) FieldIndices" where
  "FieldIndices_Add index_Add doc access fi =
     (let indices' = (\<lambda>field. map_option (index_Add doc access (field_identifier fi field))
                                  (indices fi field));
          it = upper_bound (all_ids fi) doc
      in fi\<lparr>all_ids := take it (all_ids fi) @ doc # drop it (all_ids fi),
            indices := indices'\<rparr>)"

definition FieldIndices_Remove ::
  "(DocId \<Rightarrow> 'acc \<Rightarrow> string \<Rightarrow> ('n, 'v) BaseIndex \<Rightarrow> ('n, 'v) BaseIndex) \<Rightarrow>
   DocId \<Rightarrow> 'acc \<Rightarrow> ('n, 'v) FieldIndices \<Rightarrow> error + ('n, 'v) FieldIndices" where
  "FieldIndices_Remove index_Remove doc access fi =
     (let indices' = (\<lambda>field. map_option (index_Remove doc access (field_identifier fi field))
                                  (indices fi field));
          it = lower_bound (all_ids fi) doc
      in if it \<noteq> length (all_ids fi) \<and> all_ids fi ! it = doc
         then Inr (fi\<lparr>all_ids := take it (all_ids fi) @ drop (Suc it) (all_ids fi),
                      indices := indices'\<rparr>)
         else Inl (CheckFailed ''it != all_ids_.end() && *it == doc''))"

text \<open>A sequence of calls, run until the first failed \<^verbatim>\<open>CHECK\<close>.\<close>

datatype 'acc IndexCall = AddDoc DocId 'acc | RemoveDoc DocId 'acc

fun run_calls ::
  "(DocId \<Rightarrow> 'acc \<Rightarrow> string \<Rightarrow> ('n, 'v) BaseIndex \<Rightarrow> ('n, 'v) BaseIndex) \<Rightarrow>
   (DocId \<Rightarrow> 'acc \<Rightarrow> string \<Rightarrow> ('n, 'v) BaseIndex \<Rightarrow> ('n, 'v) BaseIndex) \<Rightarrow>
   'acc IndexCall list \<Rightarrow> ('n, 'v) FieldIndices \<Rightarrow> error + ('n, 'v) FieldIndices" where
  "run_calls index_Add index_Remove [] fi = Inr fi"
| "run_calls index_Add index_Remove (AddDoc doc access # calls) fi =
     run_calls index_Add index_Remove calls (FieldIndices_Add index_Add doc access fi)"
| "run_calls index_Add index_Remove (RemoveDoc doc access # calls) fi =
     (case FieldIndices_Remove index_Remove doc access fi of
        Inl e \<Rightarrow> Inl e
      | Inr fi' \<Rightarrow> run_calls index_Add index_Remove calls fi')"

text \<open>The docs a sequence of calls adds and removes, in call order.\<close>

fun added :: "'acc IndexCall list \<Rightarrow> DocId list" where
  "added [] = []"
| "added (AddDoc doc access # calls) = doc # added calls"
| "added (RemoveDoc doc access # calls) = added calls"

fun removed :: "'acc IndexCall list \<Rightarrow> DocId list" where
  "removed [] = []"
| "removed (AddDoc doc access # calls) = removed calls"
| "removed (RemoveDoc doc access # calls) = doc # removed calls"

text \<open>The constructor \<^verbatim>\<open>FieldIndices::FieldIndices(Schema)\<close>: no doc, and an empty index
  of its type for every field of the schema. What \<^verbatim>\<open>Get\<close> of an empty vector index
  returns is the parameter \<open>no_vec\<close>.\<close>

definition FieldIndices_new :: "'v \<Rightarrow> (string \<times> SchemaField) list \<Rightarrow> ('n, 'v) FieldIndices" where
  "FieldIndices_new no_vec sch =
     \<lparr>schema = sch, all_ids = [],
      indices = map_of (map (\<lambda>(field_name, field_info).
                  (field_name,
                   case sf_type field_info of
                     TAG \<Rightarrow> TagIndex (\<lambda>tag. [])
                   | TEXT \<Rightarrow> TextIndex (\<lambda>token. [])
                   | NUMERIC \<Rightarrow> NumericIndex (\<lambda>lo hi. [])
                   | VECTOR \<Rightarrow> VectorIndex (\<lambda>doc. no_vec))) sch)\<rparr>"

section \<open>Sorting the distances (\<^verbatim>\<open>std::sort\<close>)\<close>

text \<open>
  \<^verbatim>\<open>distances_\<close> is a \<^verbatim>\<open>vector<pair<float, DocId>>\<close>, sorted by \<^verbatim>\<open>std::sort\<close>
  with \<^verbatim>\<open>operator<\<close> of \<^verbatim>\<open>std::pair\<close>: by the distances, and by the doc ids when
  neither distance is less than the other. Two pairs of which one distance is NaN are
  therefore ordered by their doc ids alone.
\<close>

definition pair_less :: "float32 \<times> DocId \<Rightarrow> float32 \<times> DocId \<Rightarrow> bool" where
  "pair_less x y \<longleftrightarrow> dless (fst x) (fst y) \<or> (\<not> dless (fst y) (fst x) \<and> snd x < snd y)"

text \<open>
  \<^verbatim>\<open>std::sort\<close> is the insertion sort that the standard library (libstdc++) runs on a
  range of at most 16 elements: every element is moved to the front when it is less than
  the first, and otherwise moved left past the elements it is less than
  (\<^verbatim>\<open>__unguarded_linear_insert\<close>, which gets the sorted part from its last element
  backwards and stops at the first element at the latest, the element not being less than
  it). On a longer range the library partitions before it inserts; where no distance is
  NaN the comparison orders the pairs totally, two pairs that are not ordered being the
  same pair, and the result of either is the one ascending arrangement. With a NaN among
  the distances the comparison need not be an order, and the model is that of the short
  range.
\<close>

fun unguarded_linear_insert ::
  "float32 \<times> DocId \<Rightarrow> (float32 \<times> DocId) list \<Rightarrow> (float32 \<times> DocId) list" where
  "unguarded_linear_insert val [] = [val]"
| "unguarded_linear_insert val (prev # before) =
     (if pair_less val prev then prev # unguarded_linear_insert val before
      else val # prev # before)"

fun insertion_sort_loop ::
  "(float32 \<times> DocId) list \<Rightarrow> (float32 \<times> DocId) list \<Rightarrow> (float32 \<times> DocId) list" where
  "insertion_sort_loop sorted_part [] = sorted_part"
| "insertion_sort_loop sorted_part (val # rest) =
     insertion_sort_loop
       (if pair_less val (hd sorted_part) then val # sorted_part
        else rev (unguarded_linear_insert val (rev sorted_part)))
       rest"

definition std_sort :: "(float32 \<times> DocId) list \<Rightarrow> (float32 \<times> DocId) list" where
  "std_sort xs = (case xs of [] \<Rightarrow> [] | first # rest \<Rightarrow> insertion_sort_loop [first] rest)"

section \<open>The executor (BasicSearch)\<close>

text \<open>
  The executor's state is \<^verbatim>\<open>distances_\<close>, threaded through every call and returned
  with the result; \<^verbatim>\<open>tmp_vec_\<close> is scratch space of \<open>Merge\<close>. \<open>Search\<close> is the
  overload set of \<^verbatim>\<open>BasicSearch::Search\<close>, one equation per node type,
  \<open>SearchGeneric\<close> the dispatch with its check that a result below the top level is sorted,
  and \<open>GetSubResults\<close> the loop that evaluates the children of a logical node in order.

  A \<^verbatim>\<open>DCHECK\<close> aborts in a debug build and is compiled out of a release build; the flag
  \<open>dbg\<close> says which build runs. Where the debug build asserts that an index exists, the
  release build goes on with a null pointer, and calling \<^verbatim>\<open>Matching\<close>,
  \<^verbatim>\<open>Range\<close> or \<^verbatim>\<open>Get\<close> through it is undefined behaviour. A tags node without
  tags and a KNN node whose filter matches no doc never call through the pointer.
\<close>

fun Search ::
    "bool \<Rightarrow> ('v \<Rightarrow> 'v \<Rightarrow> float32) \<Rightarrow> ('n, 'v) FieldIndices \<Rightarrow> ('n, 'v) AstNode \<Rightarrow> string \<Rightarrow>
     (float32 \<times> DocId) list \<Rightarrow> error + (DocId list \<times> (float32 \<times> DocId) list)"
  and SearchGeneric ::
    "bool \<Rightarrow> ('v \<Rightarrow> 'v \<Rightarrow> float32) \<Rightarrow> ('n, 'v) FieldIndices \<Rightarrow> ('n, 'v) AstNode \<Rightarrow> string \<Rightarrow>
     bool \<Rightarrow> (float32 \<times> DocId) list \<Rightarrow> error + (DocId list \<times> (float32 \<times> DocId) list)"
  and GetSubResults ::
    "bool \<Rightarrow> ('v \<Rightarrow> 'v \<Rightarrow> float32) \<Rightarrow> ('n, 'v) FieldIndices \<Rightarrow> ('n, 'v) AstNode list \<Rightarrow> string \<Rightarrow>
     (float32 \<times> DocId) list \<Rightarrow> error + (DocId list list \<times> (float32 \<times> DocId) list)"
where
  "Search dbg vd fi AstEmpty active_field distances = Inr ([], distances)"
| "Search dbg vd fi AstStarNode active_field distances =
     (if dbg \<and> active_field \<noteq> [] then Inl (DcheckFailed ''active_field.empty()'')
      else Inr (GetAllDocs fi, distances))"
| "Search dbg vd fi (AstTermNode term_str) active_field distances =
     (if active_field \<noteq> [] then
        (case GetTextIndex dbg fi active_field of
           Inl e \<Rightarrow> Inl e
         | Inr None \<Rightarrow> Inl (UndefinedBehaviour ''index->Matching'')
         | Inr (Some index) \<Rightarrow> Inr (index term_str, distances))
      else
        (case GetAllTextIndices dbg fi of
           Inl e \<Rightarrow> Inl e
         | Inr selected_indices \<Rightarrow>
             (case those selected_indices of
                None \<Rightarrow> Inl (UndefinedBehaviour ''index->Matching'')
              | Some text_indices \<Rightarrow>
                  Inr (UnifyResults (map (\<lambda>index. index term_str) text_indices) OR_op,
                       distances))))"
| "Search dbg vd fi (AstRangeNode lo hi) active_field distances =
     (if dbg \<and> active_field = [] then Inl (DcheckFailed ''!active_field.empty()'')
      else case GetNumericIndex dbg fi active_field of
             Inl e \<Rightarrow> Inl e
           | Inr None \<Rightarrow> Inl (UndefinedBehaviour ''index->Range'')
           | Inr (Some range_fn) \<Rightarrow> Inr (range_fn lo hi, distances))"
| "Search dbg vd fi (AstNegateNode node) active_field distances =
     (case SearchGeneric dbg vd fi node active_field False distances of
        Inl e \<Rightarrow> Inl e
      | Inr (matched, distances') \<Rightarrow>
          Inr (filter (\<lambda>doc. \<not> binary_search matched doc) (GetAllDocs fi), distances'))"
| "Search dbg vd fi (AstLogicalNode op nodes) active_field distances =
     (case GetSubResults dbg vd fi nodes active_field distances of
        Inl e \<Rightarrow> Inl e
      | Inr (sub_results, distances') \<Rightarrow> Inr (UnifyResults sub_results op, distances'))"
| "Search dbg vd fi (AstFieldNode field node) active_field distances =
     (if dbg \<and> active_field \<noteq> [] then Inl (DcheckFailed ''active_field.empty()'')
      else SearchGeneric dbg vd fi node field False distances)"
| "Search dbg vd fi (AstTagsNode tags) active_field distances =
     (case GetTagIndex dbg fi active_field of
        Inl e \<Rightarrow> Inl e
      | Inr None \<Rightarrow>
          if tags = [] then Inr (UnifyResults [] OR_op, distances)
          else Inl (UndefinedBehaviour ''tag_index->Matching'')
      | Inr (Some tag_index) \<Rightarrow> Inr (UnifyResults (map tag_index tags) OR_op, distances))"
| "Search dbg vd fi (AstKnnNode limit field vec filter_node) active_field distances =
     (if dbg \<and> active_field \<noteq> [] then Inl (DcheckFailed ''active_field.empty()'')
      else case SearchGeneric dbg vd fi filter_node active_field False distances of
             Inl e \<Rightarrow> Inl e
           | Inr (sub_results, distances') \<Rightarrow>
               (case GetVectorIndex dbg fi field of
                  Inl e \<Rightarrow> Inl e
                | Inr None \<Rightarrow>
                    if sub_results \<noteq> [] then Inl (UndefinedBehaviour ''vec_index->Get'')
                    else
                      let distances'' = std_sort distances'
                      in Inr (map snd (take (min limit (length distances'')) distances''),
                              distances'')
                | Inr (Some vec_index) \<Rightarrow>
                    let distances'' =
                          std_sort (distances' @
                                    map (\<lambda>doc. (vd vec (vec_index doc), doc)) sub_results)
                    in Inr (map snd (take (min limit (length distances'')) distances''),
                            distances'')))"
| "SearchGeneric dbg vd fi node active_field top_level distances =
     (case Search dbg vd fi node active_field distances of
        Inl e \<Rightarrow> Inl e
      | Inr (result, distances') \<Rightarrow>
          if dbg \<and> \<not> (top_level \<or> sorted result) then Inl (DcheckFailed ''is_sorted'')
          else Inr (result, distances'))"
| "GetSubResults dbg vd fi [] active_field distances = Inr ([], distances)"
| "GetSubResults dbg vd fi (node # nodes) active_field distances =
     (case SearchGeneric dbg vd fi node active_field False distances of
        Inl e \<Rightarrow> Inl e
      | Inr (r, distances') \<Rightarrow>
          (case GetSubResults dbg vd fi nodes active_field distances' of
             Inl e \<Rightarrow> Inl e
           | Inr (rs, distances'') \<Rightarrow> Inr (r # rs, distances'')))"

text \<open>\<^verbatim>\<open>BasicSearch::Search(const AstNode& query)\<close>, the entry point that
  \<^verbatim>\<open>SearchAlgorithm::Search\<close> calls on a fresh executor: the root is evaluated with an
  empty active field at the top level, and the distances of the result's size are copied
  out when \<^verbatim>\<open>distances_\<close> is not empty. Reading \<^verbatim>\<open>distances_[i]\<close> past its end is
  undefined behaviour in C++.\<close>

definition Search_query ::
  "bool \<Rightarrow> ('v \<Rightarrow> 'v \<Rightarrow> float32) \<Rightarrow> ('n, 'v) FieldIndices \<Rightarrow> ('n, 'v) AstNode \<Rightarrow>
   error + SearchResult" where
  "Search_query dbg vd fi query =
     (case SearchGeneric dbg vd fi query [] True [] of
        Inl e \<Rightarrow> Inl e
      | Inr (result, distances) \<Rightarrow>
          if distances \<noteq> [] then
            (if length result \<le> length distances
             then Inr \<lparr>ids = result, knn_distances = map fst (take (length result) distances)\<rparr>
             else Inl (UndefinedBehaviour ''distances_[i]''))
          else Inr \<lparr>ids = result, knn_distances = []\<rparr>)"

text \<open>\<^verbatim>\<open>SearchAlgorithm::HasKnn\<close>: the limit of a KNN node at the root.\<close>

fun HasKnn :: "('n, 'v) AstNode \<Rightarrow> nat option" where
  "HasKnn (AstKnnNode limit field vec filter_node) = Some limit"
| "HasKnn _ = None"

text \<open>Whether a KNN node occurs anywhere in a query.\<close>

fun contains_knn :: "('n, 'v) AstNode \<Rightarrow> bool" where
  "contains_knn AstEmpty = False"
| "contains_knn AstStarNode = False"
| "contains_knn (AstTermNode term_str) = False"
| "contains_knn (AstRangeNode lo hi) = False"
| "contains_knn (AstNegateNode node) = contains_knn node"
| "contains_knn (AstLogicalNode op nodes) = (\<exists>node \<in> set nodes. contains_knn node)"
| "contains_knn (AstFieldNode field node) = contains_knn node"
| "contains_knn (AstTagsNode tags) = False"
| "contains_knn (AstKnnNode limit field vec filter_node) = True"

text \<open>
  What the executor expects of the indices it reads (section 4.B of the specification:
  posting lists are kept sorted ascending; section 3: \<open>all_ids\<close> is sorted and holds every
  doc of every index): \<open>all_ids\<close> and every result of a text, tag or numeric index are
  strictly ascending, and every such result lies within \<open>all_ids\<close>.
\<close>

definition indices_sorted_within :: "('n, 'v) FieldIndices \<Rightarrow> bool" where
  "indices_sorted_within fi \<longleftrightarrow>
     sorted_wrt (<) (all_ids fi) \<and>
     (\<forall>field m t. indices fi field = Some (TextIndex m) \<longrightarrow>
        sorted_wrt (<) (m t) \<and> set (m t) \<subseteq> set (all_ids fi)) \<and>
     (\<forall>field m t. indices fi field = Some (TagIndex m) \<longrightarrow>
        sorted_wrt (<) (m t) \<and> set (m t) \<subseteq> set (all_ids fi)) \<and>
     (\<forall>field r lo hi. indices fi field = Some (NumericIndex r) \<longrightarrow>
        sorted_wrt (<) (r lo hi) \<and> set (r lo hi) \<subseteq> set (all_ids fi))"

section \<open>Strings and the flags of ZADD\<close>

text \<open>
  \<^verbatim>\<open>sdscmp\<close> of the sds library (not among the files at hand) compares two byte strings
  by \<^verbatim>\<open>memcmp\<close> over the common length and then by length. Only the sign of its result is
  used; the model returns \<open>-1\<close>, \<open>0\<close> or \<open>1\<close>. Bytes compare as unsigned values.
\<close>

fun sdscmp :: "string \<Rightarrow> string \<Rightarrow> int" where
  "sdscmp [] [] = 0"
| "sdscmp [] (y # ys) = - 1"
| "sdscmp (x # xs) [] = 1"
| "sdscmp (x # xs) (y # ys) =
     (if (of_char x :: nat) < of_char y then - 1
      else if (of_char y :: nat) < of_char x then 1
      else sdscmp xs ys)"

text \<open>The flag bits of \<^verbatim>\<open>redis/redis_aux.h\<close> (not among the files at hand), as Redis
  defines them. The flags are C \<^verbatim>\<open>int\<close>s, read bitwise.\<close>

definition ZADD_IN_INCR :: "32 word" where "ZADD_IN_INCR = push_bit 0 1"
definition ZADD_IN_NX :: "32 word" where "ZADD_IN_NX = push_bit 1 1"
definition ZADD_IN_XX :: "32 word" where "ZADD_IN_XX = push_bit 2 1"
definition ZADD_IN_GT :: "32 word" where "ZADD_IN_GT = push_bit 3 1"
definition ZADD_IN_LT :: "32 word" where "ZADD_IN_LT = push_bit 4 1"

definition ZADD_OUT_NOP :: "32 word" where "ZADD_OUT_NOP = push_bit 0 1"
definition ZADD_OUT_NAN :: "32 word" where "ZADD_OUT_NAN = push_bit 1 1"
definition ZADD_OUT_ADDED :: "32 word" where "ZADD_OUT_ADDED = push_bit 2 1"
definition ZADD_OUT_UPDATED :: "32 word" where "ZADD_OUT_UPDATED = push_bit 3 1"

section \<open>The skiplist variant (SortedMap::RdImpl)\<close>

text \<open>
  The skiplist \<^verbatim>\<open>zsl\<close> and the dictionary \<^verbatim>\<open>dict\<close> are Redis code outside the files
  at hand. The skiplist is modelled by the sequence of its nodes at level 0, from the head,
  each node a score and a member; the dictionary by the map from a member to the score its
  value points to.
\<close>

type_synonym ScoreObj = "double \<times> string"

record RdImpl =
  dict :: "string \<rightharpoonup> double"
  zsl :: "ScoreObj list"

text \<open>The test by which \<^verbatim>\<open>zslInsert\<close> and \<^verbatim>\<open>zslDelete\<close> walk past a node: its score is
  less, or the scores are equal and its member is less.\<close>

definition zsl_before :: "ScoreObj \<Rightarrow> ScoreObj \<Rightarrow> bool" where
  "zsl_before x y = (dless (fst x) (fst y) \<or> (deq (fst x) (fst y) \<and> sdscmp (snd x) (snd y) < 0))"

text \<open>Modelled from the spec: \<^verbatim>\<open>zslInsert\<close>, \<^verbatim>\<open>zslDelete\<close> and \<^verbatim>\<open>zslUpdateScore\<close> of
  the Redis skiplist (\<^verbatim>\<open>redis/t_zset.c\<close> is missing), which keeps its nodes ordered by
  (score, member) (section 4.F). \<^verbatim>\<open>zslUpdateScore\<close> asserts that the node exists.\<close>

fun zslInsert :: "ScoreObj list \<Rightarrow> double \<Rightarrow> string \<Rightarrow> ScoreObj list" where
  "zslInsert [] score ele = [(score, ele)]"
| "zslInsert (x # rest) score ele =
     (if zsl_before x (score, ele) then x # zslInsert rest score ele
      else (score, ele) # x # rest)"

fun zslDelete :: "ScoreObj list \<Rightarrow> double \<Rightarrow> string \<Rightarrow> bool \<times> ScoreObj list" where
  "zslDelete [] score ele = (False, [])"
| "zslDelete (x # rest) score ele =
     (if zsl_before x (score, ele) then
        (case zslDelete rest score ele of (found, rest') \<Rightarrow> (found, x # rest'))
      else if deq (fst x) score \<and> sdscmp (snd x) ele = 0 then (True, rest)
      else (False, x # rest))"

definition zslUpdateScore ::
  "ScoreObj list \<Rightarrow> double \<Rightarrow> string \<Rightarrow> double \<Rightarrow> error + ScoreObj list" where
  "zslUpdateScore l curscore ele newscore =
     (case zslDelete l curscore ele of
        (True, l') \<Rightarrow> Inr (zslInsert l' newscore ele)
      | (False, l') \<Rightarrow> Inl (CheckFailed ''zslUpdateScore''))"

text \<open>What \<open>Add\<close> returns: the C return value, \<^verbatim>\<open>*out_flags\<close>, \<^verbatim>\<open>*newscore\<close> when it
  was written, and the sorted set after the call.\<close>

record 'z AddResult =
  retval :: int
  out_flags :: "32 word"
  newscore :: "double option"
  after :: 'z

text \<open>\<^verbatim>\<open>SortedMap::RdImpl::Insert\<close>: the node is inserted, then \<^verbatim>\<open>dictAdd\<close> adds the
  member unless the dictionary has it already; the result says whether it was added.\<close>

definition RdImpl_Insert :: "double \<Rightarrow> string \<Rightarrow> RdImpl \<Rightarrow> bool \<times> RdImpl" where
  "RdImpl_Insert score member z =
     (let zsl' = zslInsert (zsl z) score member
      in if dict z member = None
         then (True, z\<lparr>dict := (dict z)(member \<mapsto> score), zsl := zsl'\<rparr>)
         else (False, z\<lparr>zsl := zsl'\<rparr>))"

text \<open>\<^verbatim>\<open>SortedMap::RdImpl::Add\<close>.\<close>

definition RdImpl_Add ::
  "double \<Rightarrow> string \<Rightarrow> 32 word \<Rightarrow> RdImpl \<Rightarrow> error + RdImpl AddResult" where
  "RdImpl_Add score ele in_flags z =
     (let incr = (in_flags AND ZADD_IN_INCR \<noteq> 0);
          nx = (in_flags AND ZADD_IN_NX \<noteq> 0);
          xx = (in_flags AND ZADD_IN_XX \<noteq> 0);
          gt = (in_flags AND ZADD_IN_GT \<noteq> 0);
          lt = (in_flags AND ZADD_IN_LT \<noteq> 0)
      in case dict z ele of
           Some curscore \<Rightarrow>
             if nx then
               Inr \<lparr>retval = 1, out_flags = 0 OR ZADD_OUT_NOP, newscore = None, after = z\<rparr>
             else
               let score' = (if incr then dadd score curscore else score)
               in if incr \<and> isnan score' then
                    Inr \<lparr>retval = 0, out_flags = 0 OR ZADD_OUT_NAN, newscore = None, after = z\<rparr>
                  else if (lt \<and> dge score' curscore) \<or> (gt \<and> dle score' curscore) then
                    Inr \<lparr>retval = 1, out_flags = 0 OR ZADD_OUT_NOP, newscore = None, after = z\<rparr>
                  else if dne score' curscore then
                    (case zslUpdateScore (zsl z) curscore ele score' of
                       Inl e \<Rightarrow> Inl e
                     | Inr zsl' \<Rightarrow>
                         Inr \<lparr>retval = 1, out_flags = 0 OR ZADD_OUT_UPDATED,
                              newscore = Some score',
                              after = z\<lparr>dict := (dict z)(ele \<mapsto> score'), zsl := zsl'\<rparr>\<rparr>)
                  else
                    Inr \<lparr>retval = 1, out_flags = 0, newscore = Some score', after = z\<rparr>
         | None \<Rightarrow>
             if \<not> xx then
               Inr \<lparr>retval = 1, out_flags = 0 OR ZADD_OUT_ADDED, newscore = Some score,
                    after = z\<lparr>dict := (dict z)(ele \<mapsto> score),
                               zsl := zslInsert (zsl z) score ele\<rparr>\<rparr>
             else
               Inr \<lparr>retval = 1, out_flags = 0 OR ZADD_OUT_NOP, newscore = None, after = z\<rparr>)"

section \<open>The comparison of tagged keys (SortedMap::DfImpl::ScoreSdsPolicy::KeyCompareTo)\<close>

text \<open>
  A \<^verbatim>\<open>ScoreSds\<close> is a 64-bit pointer to an sds string that is followed by its score; the
  bits 63 and 62 of the pointer are tags, and the low 60 bits the address. The memory is a
  function from an address to the object stored there, its score (\<^verbatim>\<open>GetObjScore\<close>) and
  its member.
\<close>

definition kInfTag :: "64 word" where "kInfTag = push_bit 63 1"
definition kIgnoreDoubleTag :: "64 word" where "kIgnoreDoubleTag = push_bit 62 1"
definition kSdsMask :: "64 word" where "kSdsMask = push_bit 60 1 - 1"

definition GetObjScore :: "(64 word \<Rightarrow> ScoreObj) \<Rightarrow> 64 word \<Rightarrow> double" where
  "GetObjScore mem obj = fst (mem obj)"

definition KeyCompareTo :: "(64 word \<Rightarrow> ScoreObj) \<Rightarrow> 64 word \<Rightarrow> 64 word \<Rightarrow> int" where
  "KeyCompareTo mem a b =
     (let sdsa = a AND kSdsMask;
          sdsb = b AND kSdsMask;
          by_score =
            (if a AND kIgnoreDoubleTag = 0 \<and> b AND kIgnoreDoubleTag = 0 then
               (let sa = GetObjScore mem sdsa; sb = GetObjScore mem sdsb
                in if dless sa sb then Some (- 1)
                   else if dless sb sa then Some 1
                   else None)
             else None)
      in case by_score of
           Some c \<Rightarrow> c
         | None \<Rightarrow>
             if a AND kInfTag \<noteq> 0 then 1
             else if b AND kInfTag \<noteq> 0 then - 1
             else sdscmp (snd (mem sdsa)) (snd (mem sdsb)))"

section \<open>The B+tree variant (SortedMap::DfImpl)\<close>

text \<open>
  \<^verbatim>\<open>ScoreMap\<close> and the B+tree (\<^verbatim>\<open>core/score_map.h\<close>, \<^verbatim>\<open>core/bptree_set.h\<close>) are outside
  the files at hand. The score map is modelled by the map from a member to the score of its
  object, the tree by the sequence of its objects in key order. The keys in the tree carry
  no tag, so the tree compares two of them as \<open>KeyCompareTo\<close> compares untagged pointers to
  them: by \<open>obj_compare\<close>.
\<close>

record DfImpl =
  score_map :: "string \<rightharpoonup> double"
  score_tree :: "ScoreObj list"

definition obj_compare :: "ScoreObj \<Rightarrow> ScoreObj \<Rightarrow> int" where
  "obj_compare x y =
     (if dless (fst x) (fst y) then - 1
      else if dless (fst y) (fst x) then 1
      else sdscmp (snd x) (snd y))"

text \<open>Modelled from the spec: \<^verbatim>\<open>Insert\<close> and \<^verbatim>\<open>Delete\<close> of the B+tree (section 4.G: a
  tree of keys ordered by the comparator). \<open>Insert\<close> refuses a key that compares equal to
  one in the tree, \<open>Delete\<close> says whether it found the key.\<close>

fun tree_Insert :: "ScoreObj \<Rightarrow> ScoreObj list \<Rightarrow> bool \<times> ScoreObj list" where
  "tree_Insert k [] = (True, [k])"
| "tree_Insert k (x # rest) =
     (if obj_compare x k < 0 then
        (case tree_Insert k rest of (was_added, rest') \<Rightarrow> (was_added, x # rest'))
      else if obj_compare x k = 0 then (False, x # rest)
      else (True, k # x # rest))"

fun tree_Delete :: "ScoreObj \<Rightarrow> ScoreObj list \<Rightarrow> bool \<times> ScoreObj list" where
  "tree_Delete k [] = (False, [])"
| "tree_Delete k (x # rest) =
     (if obj_compare x k < 0 then
        (case tree_Delete k rest of (found, rest') \<Rightarrow> (found, x # rest'))
      else if obj_compare x k = 0 then (True, rest)
      else (False, x # rest))"

text \<open>\<^verbatim>\<open>SortedMap::DfImpl::Add\<close>. \<open>dbg\<close> says whether the \<^verbatim>\<open>DCHECK\<close>s are compiled in.\<close>

definition DfImpl_Add ::
  "bool \<Rightarrow> double \<Rightarrow> string \<Rightarrow> 32 word \<Rightarrow> DfImpl \<Rightarrow> error + DfImpl AddResult" where
  "DfImpl_Add dbg score ele in_flags z =
     (if dbg \<and> isnan score then Inl (DcheckFailed ''!isnan(score)'')
      else case score_map z ele of
             None \<Rightarrow>
               if in_flags AND ZADD_IN_XX \<noteq> 0 then
                 Inr \<lparr>retval = 1, out_flags = ZADD_OUT_NOP, newscore = None, after = z\<rparr>
               else
                 (case tree_Insert (score, ele) (score_tree z) of
                    (was_added, tree') \<Rightarrow>
                      if dbg \<and> \<not> was_added then Inl (DcheckFailed ''added'')
                      else Inr \<lparr>retval = 1, out_flags = ZADD_OUT_ADDED, newscore = Some score,
                                after = z\<lparr>score_map := (score_map z)(ele \<mapsto> score),
                                           score_tree := tree'\<rparr>\<rparr>)
           | Some cur \<Rightarrow>
               if in_flags AND ZADD_IN_NX \<noteq> 0 then
                 Inr \<lparr>retval = 1, out_flags = ZADD_OUT_NOP, newscore = None, after = z\<rparr>
               else
                 let score' = (if in_flags AND ZADD_IN_INCR \<noteq> 0 then dadd score cur else score)
                 in if in_flags AND ZADD_IN_INCR \<noteq> 0 \<and> isnan score' then
                      Inr \<lparr>retval = 0, out_flags = ZADD_OUT_NAN, newscore = None, after = z\<rparr>
                    else
                      (case tree_Delete (cur, ele) (score_tree z) of
                         (False, tree') \<Rightarrow> Inl (CheckFailed ''score_tree->Delete(obj)'')
                       | (True, tree') \<Rightarrow>
                           (case tree_Insert (score', ele) tree' of
                              (False, tree'') \<Rightarrow> Inl (CheckFailed ''score_tree->Insert(obj)'')
                            | (True, tree'') \<Rightarrow>
                                Inr \<lparr>retval = 1, out_flags = ZADD_OUT_UPDATED,
                                     newscore = Some score',
                                     after = z\<lparr>score_map := (score_map z)(ele \<mapsto> score'),
                                                score_tree := tree''\<rparr>\<rparr>)))"

text \<open>\<^verbatim>\<open>SortedMap::DfImpl::Insert\<close>: both additions are checked by a \<^verbatim>\<open>DCHECK\<close>, and the
  result is \<^verbatim>\<open>true\<close>.\<close>

definition DfImpl_Insert :: "bool \<Rightarrow> double \<Rightarrow> string \<Rightarrow> DfImpl \<Rightarrow> error + bool \<times> DfImpl" where
  "DfImpl_Insert dbg score ele z =
     (if dbg \<and> score_map z ele \<noteq> None then Inl (DcheckFailed ''added'')
      else case tree_Insert (score, ele) (score_tree z) of
             (was_added, tree') \<Rightarrow>
               if dbg \<and> \<not> was_added then Inl (DcheckFailed ''added'')
               else Inr (True, z\<lparr>score_map := (score_map z)(ele \<mapsto> score),
                                  score_tree := tree'\<rparr>))"

text \<open>The operations of the B+tree variant that are not written yet: each is
  \<^verbatim>\<open>LOG(FATAL) << "TBD"\<close>, which ends the process; the \<^verbatim>\<open>return\<close> after it is never
  reached.\<close>

record zrangespec =
  range_min :: double
  range_max :: double
  minex :: bool
  maxex :: bool

record zlexrangespec =
  lex_min :: string
  lex_max :: string
  lex_minex :: bool
  lex_maxex :: bool

type_synonym ScoredArray = "(string \<times> double) list"

definition DfImpl_GetRange ::
  "DfImpl \<Rightarrow> zrangespec \<Rightarrow> nat \<Rightarrow> nat \<Rightarrow> bool \<Rightarrow> error + ScoredArray" where
  "DfImpl_GetRange z spec offset limit reverse = Inl (Fatal ''TBD'')"

definition DfImpl_GetLexRange ::
  "DfImpl \<Rightarrow> zlexrangespec \<Rightarrow> nat \<Rightarrow> nat \<Rightarrow> bool \<Rightarrow> error + ScoredArray" where
  "DfImpl_GetLexRange z spec offset limit reverse = Inl (Fatal ''TBD'')"

definition DfImpl_DeleteRangeByRank :: "DfImpl \<Rightarrow> nat \<Rightarrow> nat \<Rightarrow> error + nat \<times> DfImpl" where
  "DfImpl_DeleteRangeByRank z start end_rank = Inl (Fatal ''TBD'')"

definition DfImpl_DeleteRangeByScore :: "DfImpl \<Rightarrow> zrangespec \<Rightarrow> error + nat \<times> DfImpl" where
  "DfImpl_DeleteRangeByScore z spec = Inl (Fatal ''TBD'')"

definition DfImpl_DeleteRangeByLex :: "DfImpl \<Rightarrow> zlexrangespec \<Rightarrow> error + nat \<times> DfImpl" where
  "DfImpl_DeleteRangeByLex z spec = Inl (Fatal ''TBD'')"

definition DfImpl_LexCount :: "DfImpl \<Rightarrow> zlexrangespec \<Rightarrow> error + nat" where
  "DfImpl_LexCount z spec = Inl (Fatal ''TBD'')"

section \<open>Listpacks\<close>

text \<open>
  A listpack is a sequence of entries, each a byte string or an integer
  (\<^verbatim>\<open>lpGetValue\<close> returns one or the other). The listpack library and the conversions of
  Redis are outside the files at hand; the model takes them as the fields of a
  \<open>lp_codec\<close>: what entry \<^verbatim>\<open>lpAppend\<close> stores for a string, the text \<^verbatim>\<open>d2string\<close>
  renders a score as, the score \<^verbatim>\<open>zzlGetScore\<close> reads from an entry, and the string
  \<^verbatim>\<open>sdsfromlonglong\<close> makes of an integer.
\<close>

datatype lpEntry = LpString string | LpInt int

record lp_codec =
  lpAppend_entry :: "string \<Rightarrow> lpEntry"
  d2string :: "double \<Rightarrow> string"
  zzlGetScore :: "lpEntry \<Rightarrow> double"
  sdsfromlonglong :: "int \<Rightarrow> string"

text \<open>\<^verbatim>\<open>zzlInsertAt\<close>: at the end when \<^verbatim>\<open>eptr\<close> is null, else before the entry at
  \<^verbatim>\<open>eptr\<close>; the member first, its score after it.\<close>

definition zzlInsertAt ::
  "lp_codec \<Rightarrow> lpEntry list \<Rightarrow> nat option \<Rightarrow> string \<Rightarrow> double \<Rightarrow> lpEntry list" where
  "zzlInsertAt c zl eptr ele score =
     (let scorebuf = d2string c score
      in case eptr of
           None \<Rightarrow> (zl @ [lpAppend_entry c ele]) @ [lpAppend_entry c scorebuf]
         | Some i \<Rightarrow> take i zl @ [lpAppend_entry c ele, lpAppend_entry c scorebuf] @ drop i zl)"

text \<open>\<^verbatim>\<open>SortedMap::RdImpl::ToListPack\<close>: the loop over the nodes of level 0, from the head.\<close>

fun ToListPack_loop :: "lp_codec \<Rightarrow> ScoreObj list \<Rightarrow> lpEntry list \<Rightarrow> lpEntry list" where
  "ToListPack_loop c [] lp = lp"
| "ToListPack_loop c ((score, ele) # nodes) lp =
     ToListPack_loop c nodes (zzlInsertAt c lp None ele score)"

definition RdImpl_ToListPack :: "lp_codec \<Rightarrow> RdImpl \<Rightarrow> lpEntry list" where
  "RdImpl_ToListPack c z = ToListPack_loop c (zsl z) []"

definition DfImpl_ToListPack :: "lp_codec \<Rightarrow> DfImpl \<Rightarrow> error + lpEntry list" where
  "DfImpl_ToListPack c z = Inl (Fatal ''TBD'')"

section \<open>The sorted set of either variant (SortedMap)\<close>

text \<open>
  A \<^verbatim>\<open>SortedMap\<close> holds one of the two variants, chosen by the flag
  \<^verbatim>\<open>use_zset_tree\<close> when it is constructed, and its operations dispatch on the variant
  (the dispatch is in \<^verbatim>\<open>core/sorted_map.h\<close>, outside the files at hand).
\<close>

datatype SortedMap = Rd RdImpl | Df DfImpl

definition SortedMap_new :: "bool \<Rightarrow> SortedMap" where
  "SortedMap_new use_zset_tree =
     (if use_zset_tree then Df \<lparr>score_map = Map.empty, score_tree = []\<rparr>
      else Rd \<lparr>dict = Map.empty, zsl = []\<rparr>)"

fun SortedMap_Insert :: "bool \<Rightarrow> double \<Rightarrow> string \<Rightarrow> SortedMap \<Rightarrow> error + bool \<times> SortedMap" where
  "SortedMap_Insert dbg score ele (Rd z) =
     (case RdImpl_Insert score ele z of (ok, z') \<Rightarrow> Inr (ok, Rd z'))"
| "SortedMap_Insert dbg score ele (Df z) =
     (case DfImpl_Insert dbg score ele z of
        Inl e \<Rightarrow> Inl e
      | Inr (ok, z') \<Rightarrow> Inr (ok, Df z'))"

fun SortedMap_ToListPack :: "lp_codec \<Rightarrow> SortedMap \<Rightarrow> error + lpEntry list" where
  "SortedMap_ToListPack c (Rd z) = Inr (RdImpl_ToListPack c z)"
| "SortedMap_ToListPack c (Df z) = DfImpl_ToListPack c z"

text \<open>\<^verbatim>\<open>SortedMap::FromListPack\<close>: the entries are read in pairs, a member and its score,
  and inserted in that order; \<open>entry_to_sds\<close> is the member an entry holds, a string as it
  is and an integer through \<^verbatim>\<open>sdsfromlonglong\<close>. An odd number of entries fails the \<^verbatim>\<open>CHECK\<close> on
  \<^verbatim>\<open>sptr\<close> (the assertion of \<^verbatim>\<open>zzlNext\<close> after the first pair).\<close>

definition entry_to_sds :: "lp_codec \<Rightarrow> lpEntry \<Rightarrow> string" where
  "entry_to_sds c eptr =
     (case eptr of LpString vstr \<Rightarrow> vstr | LpInt vlong \<Rightarrow> sdsfromlonglong c vlong)"

fun FromListPack_loop ::
  "bool \<Rightarrow> lp_codec \<Rightarrow> lpEntry list \<Rightarrow> SortedMap \<Rightarrow> error + SortedMap" where
  "FromListPack_loop dbg c [] zs = Inr zs"
| "FromListPack_loop dbg c [eptr] zs = Inl (CheckFailed ''sptr != NULL'')"
| "FromListPack_loop dbg c (eptr # sptr # rest) zs =
     (let score = zzlGetScore c sptr;
          ele = entry_to_sds c eptr
      in case SortedMap_Insert dbg score ele zs of
           Inl e \<Rightarrow> Inl e
         | Inr (ok, zs') \<Rightarrow>
             if ok then FromListPack_loop dbg c rest zs'
             else Inl (CheckFailed ''zs->Insert(score, ele)''))"

definition FromListPack :: "bool \<Rightarrow> lp_codec \<Rightarrow> bool \<Rightarrow> lpEntry list \<Rightarrow> error + SortedMap" where
  "FromListPack dbg c use_zset_tree lp = FromListPack_loop dbg c lp (SortedMap_new use_zset_tree)"


text \<open>The round trip of the claim: \<open>ToListPack\<close>, then \<open>FromListPack\<close> of its result.\<close>

definition listpack_round_trip :: "bool \<Rightarrow> lp_codec \<Rightarrow> bool \<Rightarrow> SortedMap \<Rightarrow> error + SortedMap" where
  "listpack_round_trip dbg c use_zset_tree z =
     (case SortedMap_ToListPack c z of
        Inl e \<Rightarrow> Inl e
      | Inr lp \<Rightarrow> FromListPack dbg c use_zset_tree lp)"

section \<open>The order of the specification on scores and members\<close>

text \<open>
  The order the specification gives the elements of a sorted set, in its own words
  (section 3): ascending by (score, member-bytes-lex), ties in score broken
  lexicographically. \<open>bytes_less\<close> is the lexicographic order of byte strings, and
  \<open>spec_score_member_less\<close> the order of the pairs. A tree-resident key is a pointer
  without tag bits, \<open>untagged\<close>.
\<close>

definition bytes_less :: "string \<Rightarrow> string \<Rightarrow> bool" where
  "bytes_less xs ys \<longleftrightarrow> (xs, ys) \<in> lexord {(c, d). (of_char c :: nat) < of_char d}"

definition spec_score_member_less :: "ScoreObj \<Rightarrow> ScoreObj \<Rightarrow> bool" where
  "spec_score_member_less x y \<longleftrightarrow>
     dless (fst x) (fst y) \<or> (fst x = fst y \<and> bytes_less (snd x) (snd y))"

definition untagged :: "64 word \<Rightarrow> bool" where
  "untagged a \<longleftrightarrow> a AND kInfTag = 0 \<and> a AND kIgnoreDoubleTag = 0 \<and> a AND kSdsMask = a"

section \<open>The reply to a KNN search (server/search/search_family.cc)\<close>

text \<open>
  \<^verbatim>\<open>ReplyKnn\<close> gets the limit of the KNN root, the parameters of the command and the
  results of the shards, and sends the length of the reply array, the number of docs and the
  docs of the window. A doc of a shard's result is its key and its distance (the fields of
  the doc are sent with it and play no part). \<^verbatim>\<open>size_t\<close> is 64 bits wide, and the sum of
  offset and total wraps around.

  \<^verbatim>\<open>std::partial_sort\<close> is the parameter \<open>psort\<close>: the standard says what its result
  is up to the order of equal elements and of the elements behind the middle, and it
  requires the middle to lie within the range; a call with the middle past the end is
  undefined behaviour. \<^verbatim>\<open>absl::Span::subspan\<close> throws when the position is past the
  end; the header of the reply has been sent by then.
\<close>

record SearchParams =
  limit_offset :: nat
  limit_total :: nat

record SerializedSearchDoc =
  doc_key :: string
  knn_distance :: float32

record KnnReply =
  array_len :: nat
  total_count :: nat
  sent_docs :: "SerializedSearchDoc list"

definition ReplyKnn ::
  "(nat \<Rightarrow> SerializedSearchDoc list \<Rightarrow> SerializedSearchDoc list) \<Rightarrow> nat \<Rightarrow> SearchParams \<Rightarrow>
   SerializedSearchDoc list list \<Rightarrow> error + KnnReply" where
  "ReplyKnn psort knn_limit params results =
     (let docs = concat results;
          middle = min ((limit_offset params + limit_total params) mod 2 ^ 64) knn_limit
      in if length docs < middle then Inl (UndefinedBehaviour ''partial_sort: middle > last'')
         else
           let docs1 = psort middle docs;
               docs2 = take (min (length docs1) knn_limit) docs1;
               response_count = min (length docs2 - min (length docs2) (limit_offset params))
                                    (limit_total params)
           in if length docs2 < limit_offset params then Inl (OutOfRange ''pos > size()'')
              else Inr \<lparr>array_len = response_count * 2 + 1, total_count = length docs2,
                        sent_docs = take response_count (drop (limit_offset params) docs2)\<rparr>)"

chapter \<open>Properties\<close>

section \<open>Properties of the merges\<close>

lemma set_intersection_set:
  "sorted_wrt (<) xs \<Longrightarrow> sorted_wrt (<) ys \<Longrightarrow>
   set (set_intersection xs ys) = set xs \<inter> set ys"
proof (induction xs ys rule: set_intersection.induct)
  case (3 x xs y ys)
  have xs: "\<forall>z \<in> set xs. x < z" and ys: "\<forall>z \<in> set ys. y < z"
    and sx: "sorted_wrt (<) xs" and sy: "sorted_wrt (<) ys"
    using 3 by auto
  show ?case
  proof (cases "x < y")
    case True
    then have "x \<notin> set (y # ys)" using ys by auto
    then show ?thesis using True 3 sx by auto
  next
    case False
    show ?thesis
    proof (cases "y < x")
      case True
      then have "y \<notin> set (x # xs)" using xs by auto
      then show ?thesis using True False 3 sy by auto
    next
      case F2: False
      then have "x = y" using False by simp
      then show ?thesis using False 3 sx sy by auto
    qed
  qed
qed simp_all

lemma set_intersection_sorted:
  "sorted_wrt (<) xs \<Longrightarrow> sorted_wrt (<) ys \<Longrightarrow> sorted_wrt (<) (set_intersection xs ys)"
  by (induction xs ys rule: set_intersection.induct) (auto simp: set_intersection_set)

lemma set_union_set: "set (set_union xs ys) = set xs \<union> set ys"
  by (induction xs ys rule: set_union.induct) auto

lemma set_union_sorted:
  "sorted_wrt (<) xs \<Longrightarrow> sorted_wrt (<) ys \<Longrightarrow> sorted_wrt (<) (set_union xs ys)"
  by (induction xs ys rule: set_union.induct) (auto simp: set_union_set)

lemma Merge_sorted:
  "sorted_wrt (<) m \<Longrightarrow> sorted_wrt (<) c \<Longrightarrow> sorted_wrt (<) (Merge m c op)"
  by (simp add: Merge_def set_intersection_sorted set_union_sorted)

lemma Merge_set:
  "sorted_wrt (<) m \<Longrightarrow> sorted_wrt (<) c \<Longrightarrow>
   set (Merge m c op) = (if op = AND_op then set m \<inter> set c else set m \<union> set c)"
  by (simp add: Merge_def set_intersection_set set_union_set)

lemma unify_loop_trace_split:
  "unify_loop_trace rest (consumed, out) op =
     (consumed @ rest, foldl (\<lambda>acc m. Merge m acc op) out rest)"
  by (induction rest arbitrary: consumed out) simp_all

lemma unify_loop_Nil [simp]: "unify_loop [] out op = out"
  by (simp add: unify_loop_def)

lemma unify_loop_Cons [simp]:
  "unify_loop (matched # rest) out op = unify_loop rest (Merge matched out op) op"
  by (simp add: unify_loop_def unify_loop_trace_split)

lemma UnifyResults_unfold:
  "UnifyResults sub_results op =
     (if sub_results = [] then []
      else let sorted_results = sort_key length sub_results
           in unify_loop (tl sorted_results) (hd sorted_results) op)"
  by (simp add: UnifyResults_def UnifyResults_trace_def unify_loop_def Let_def
      unify_loop_trace_split)

lemma UnifyResults_trace_order:
  "sub_results \<noteq> [] \<Longrightarrow> fst (UnifyResults_trace sub_results op) = sort_key length sub_results"
proof -
  assume ne: "sub_results \<noteq> []"
  then have "sort_key length sub_results \<noteq> []" by (metis length_sort length_0_conv)
  then have "hd (sort_key length sub_results) # tl (sort_key length sub_results) =
      sort_key length sub_results" by simp
  then show ?thesis
    using ne by (simp add: UnifyResults_trace_def Let_def unify_loop_trace_split)
qed

lemma unify_loop_sorted:
  "\<forall>s \<in> set rest. sorted_wrt (<) s \<Longrightarrow> sorted_wrt (<) out \<Longrightarrow>
   sorted_wrt (<) (unify_loop rest out op)"
  by (induction rest arbitrary: out) (simp_all add: Merge_sorted)

lemma unify_loop_set:
  "\<forall>s \<in> set rest. sorted_wrt (<) s \<Longrightarrow> sorted_wrt (<) out \<Longrightarrow>
   set (unify_loop rest out op) =
     (if op = AND_op then set out \<inter> (\<Inter>s \<in> set rest. set s)
      else set out \<union> (\<Union>s \<in> set rest. set s))"
proof (induction rest arbitrary: out)
  case Nil
  then show ?case by simp
next
  case (Cons m rest)
  have "sorted_wrt (<) (Merge m out op)"
    using Cons.prems by (simp add: Merge_sorted)
  then show ?case
    using Cons by (auto simp: Merge_set)
qed

lemma unify_loop_foldl: "unify_loop rest out op = foldl (\<lambda>acc m. Merge m acc op) out rest"
  by (induction rest arbitrary: out) simp_all

lemma strict_sorted_eq_sorted_list_of_set:
  "sorted_wrt (<) (xs :: nat list) \<Longrightarrow> sorted_list_of_set (set xs) = xs"
  by (simp add: strict_sorted_iff sorted_list_of_set.idem_if_sorted_distinct)

lemma strict_sorted_unique:
  "sorted_wrt (<) (xs :: nat list) \<Longrightarrow> sorted_wrt (<) ys \<Longrightarrow> set xs = set ys \<Longrightarrow> xs = ys"
  by (simp add: strict_sorted_iff sorted_distinct_set_unique)

text \<open>Whatever order the sub-results are folded in, the result is the same: the outcome
  does not depend on how the sort orders sub-results of equal size.\<close>

lemma unify_loop_perm:
  assumes "\<forall>s \<in> set subs. sorted_wrt (<) s" and "mset ys = mset subs" and "ys \<noteq> []"
    and "zs \<noteq> []" and "mset zs = mset subs"
  shows "unify_loop (tl ys) (hd ys) op = unify_loop (tl zs) (hd zs) op"
proof -
  have sets: "set ys = set subs" "set zs = set subs"
    using assms by (metis set_mset_mset)+
  have res: "us \<noteq> [] \<Longrightarrow> set us = set subs \<Longrightarrow>
      sorted_wrt (<) (unify_loop (tl us) (hd us) op) \<and>
      set (unify_loop (tl us) (hd us) op) =
        (if op = AND_op then (\<Inter>s \<in> set subs. set s) else (\<Union>s \<in> set subs. set s))" for us
  proof -
    assume ne: "us \<noteq> []" and eq: "set us = set subs"
    then obtain u rest where us: "us = u # rest" by (cases us) auto
    have srt: "\<forall>s \<in> set rest. sorted_wrt (<) s" "sorted_wrt (<) u"
      using assms(1) eq us by auto
    have "set subs = insert u (set rest)" using eq us by auto
    then show ?thesis
      using unify_loop_sorted[OF srt, of op] unify_loop_set[OF srt, of op] us by auto
  qed
  have a: "sorted_wrt (<) (unify_loop (tl ys) (hd ys) op)"
    and b: "sorted_wrt (<) (unify_loop (tl zs) (hd zs) op)"
    and c: "set (unify_loop (tl ys) (hd ys) op) = set (unify_loop (tl zs) (hd zs) op)"
    using res[OF assms(3) sets(1)] res[OF assms(4) sets(2)] by auto
  show ?thesis
    by (rule strict_sorted_unique[OF a b c])
qed

section \<open>The binary searches on a sorted vector\<close>

lemma lower_bound_loop_spec:
  "sorted xs \<Longrightarrow> first + len \<le> length xs \<Longrightarrow>
   first \<le> lower_bound_loop xs v first len \<and>
   lower_bound_loop xs v first len \<le> first + len \<and>
   (\<forall>i. first \<le> i \<and> i < lower_bound_loop xs v first len \<longrightarrow> xs ! i < v) \<and>
   (\<forall>i. lower_bound_loop xs v first len \<le> i \<and> i < first + len \<longrightarrow> \<not> xs ! i < v)"
proof (induction xs v first len rule: lower_bound_loop.induct)
  case (1 xs v first len)
  show ?case
  proof (cases "len = 0")
    case True
    then show ?thesis by simp
  next
    case False
    define half where "half = len div 2"
    define mid where "mid = first + half"
    have hl: "half < len" using False by (simp add: half_def)
    have midlt: "mid < length xs" using hl "1.prems" by (simp add: mid_def)
    show ?thesis
    proof (cases "xs ! mid < v")
      case True
      have eq: "lower_bound_loop xs v first len = lower_bound_loop xs v (mid + 1) (len - half - 1)"
        using False True by (subst lower_bound_loop.simps) (simp add: Let_def half_def mid_def)
      have bnd: "mid + 1 + (len - half - 1) \<le> length xs"
        using hl "1.prems" by (simp add: mid_def)
      have IH: "mid + 1 \<le> lower_bound_loop xs v (mid + 1) (len - half - 1) \<and>
          lower_bound_loop xs v (mid + 1) (len - half - 1) \<le> mid + 1 + (len - half - 1) \<and>
          (\<forall>i. mid + 1 \<le> i \<and> i < lower_bound_loop xs v (mid + 1) (len - half - 1) \<longrightarrow> xs ! i < v) \<and>
          (\<forall>i. lower_bound_loop xs v (mid + 1) (len - half - 1) \<le> i \<and> i < mid + 1 + (len - half - 1) \<longrightarrow> \<not> xs ! i < v)"
        using "1.IH"(1)[OF False half_def mid_def True "1.prems"(1) bnd] .
      have low: "xs ! i < v" if "first \<le> i" "i \<le> mid" for i
      proof -
        have "xs ! i \<le> xs ! mid" using that midlt "1.prems"(1) by (simp add: sorted_nth_mono)
        then show ?thesis using True by simp
      qed
      have e: "mid + 1 + (len - half - 1) = first + len" using hl by (simp add: mid_def)
      let ?r = "lower_bound_loop xs v (mid + 1) (len - half - 1)"
      have fm: "first \<le> mid" by (simp add: mid_def)
      have c1: "first \<le> ?r" using IH fm by linarith
      have c2: "?r \<le> first + len" using IH e by linarith
      have c3: "xs ! i < v" if "first \<le> i" "i < ?r" for i
      proof (cases "i \<le> mid")
        case True
        then show ?thesis using low that by simp
      next
        case False
        then have "mid + 1 \<le> i" by simp
        then show ?thesis using IH that by blast
      qed
      have c4: "\<not> xs ! i < v" if "?r \<le> i" "i < first + len" for i
        using IH that e by simp
      show ?thesis
        unfolding eq using c1 c2 c3 c4 by blast
    next
      case F: False
      have eq: "lower_bound_loop xs v first len = lower_bound_loop xs v first half"
        using False F by (subst lower_bound_loop.simps) (simp add: Let_def half_def mid_def)
      have bnd: "first + half \<le> length xs" using hl "1.prems" by simp
      have IH: "first \<le> lower_bound_loop xs v first half \<and>
          lower_bound_loop xs v first half \<le> first + half \<and>
          (\<forall>i. first \<le> i \<and> i < lower_bound_loop xs v first half \<longrightarrow> xs ! i < v) \<and>
          (\<forall>i. lower_bound_loop xs v first half \<le> i \<and> i < first + half \<longrightarrow> \<not> xs ! i < v)"
        using "1.IH"(2)[OF False half_def mid_def F "1.prems"(1) bnd] .
      have high: "\<not> xs ! i < v" if "mid \<le> i" "i < first + len" for i
      proof -
        have "xs ! mid \<le> xs ! i" using that "1.prems" by (simp add: sorted_nth_mono)
        then show ?thesis using F by simp
      qed
      let ?r = "lower_bound_loop xs v first half"
      have c1: "first \<le> ?r" using IH by simp
      have c2: "?r \<le> first + len" using IH hl by linarith
      have c3: "xs ! i < v" if "first \<le> i" "i < ?r" for i
        using IH that by blast
      have c4: "\<not> xs ! i < v" if "?r \<le> i" "i < first + len" for i
      proof (cases "i < first + half")
        case True
        then show ?thesis using IH that by blast
      next
        case False
        then have "mid \<le> i" by (simp add: mid_def)
        then show ?thesis using high that by simp
      qed
      show ?thesis
        unfolding eq using c1 c2 c3 c4 by blast
    qed
  qed
qed


lemma upper_bound_loop_spec:
  "sorted xs \<Longrightarrow> first + len \<le> length xs \<Longrightarrow>
   first \<le> upper_bound_loop xs v first len \<and>
   upper_bound_loop xs v first len \<le> first + len \<and>
   (\<forall>i. first \<le> i \<and> i < upper_bound_loop xs v first len \<longrightarrow> xs ! i \<le> v) \<and>
   (\<forall>i. upper_bound_loop xs v first len \<le> i \<and> i < first + len \<longrightarrow> v < xs ! i)"
proof (induction xs v first len rule: upper_bound_loop.induct)
  case (1 xs v first len)
  show ?case
  proof (cases "len = 0")
    case True
    then show ?thesis by simp
  next
    case False
    define half where "half = len div 2"
    define mid where "mid = first + half"
    have hl: "half < len" using False by (simp add: half_def)
    have midlt: "mid < length xs" using hl "1.prems" by (simp add: mid_def)
    show ?thesis
    proof (cases "v < xs ! mid")
      case F: False
      have eq: "upper_bound_loop xs v first len = upper_bound_loop xs v (mid + 1) (len - half - 1)"
        using False F by (subst upper_bound_loop.simps) (simp add: Let_def half_def mid_def)
      have bnd: "mid + 1 + (len - half - 1) \<le> length xs"
        using hl "1.prems" by (simp add: mid_def)
      have IH: "mid + 1 \<le> upper_bound_loop xs v (mid + 1) (len - half - 1) \<and>
          upper_bound_loop xs v (mid + 1) (len - half - 1) \<le> mid + 1 + (len - half - 1) \<and>
          (\<forall>i. mid + 1 \<le> i \<and> i < upper_bound_loop xs v (mid + 1) (len - half - 1) \<longrightarrow> xs ! i \<le> v) \<and>
          (\<forall>i. upper_bound_loop xs v (mid + 1) (len - half - 1) \<le> i \<and> i < mid + 1 + (len - half - 1) \<longrightarrow> v < xs ! i)"
        using "1.IH"(2)[OF False half_def mid_def F "1.prems"(1) bnd] .
      have low: "xs ! i \<le> v" if "first \<le> i" "i \<le> mid" for i
      proof -
        have "xs ! i \<le> xs ! mid" using that midlt "1.prems"(1) by (simp add: sorted_nth_mono)
        then show ?thesis using F by simp
      qed
      have e: "mid + 1 + (len - half - 1) = first + len" using hl by (simp add: mid_def)
      let ?r = "upper_bound_loop xs v (mid + 1) (len - half - 1)"
      have fm: "first \<le> mid" by (simp add: mid_def)
      have c1: "first \<le> ?r" using IH fm by linarith
      have c2: "?r \<le> first + len" using IH e by linarith
      have c3: "xs ! i \<le> v" if "first \<le> i" "i < ?r" for i
      proof (cases "i \<le> mid")
        case True
        then show ?thesis using low that by simp
      next
        case False
        then have "mid + 1 \<le> i" by simp
        then show ?thesis using IH that by blast
      qed
      have c4: "v < xs ! i" if "?r \<le> i" "i < first + len" for i
        using IH that e by simp
      show ?thesis
        unfolding eq using c1 c2 c3 c4 by blast
    next
      case True
      have eq: "upper_bound_loop xs v first len = upper_bound_loop xs v first half"
        using False True by (subst upper_bound_loop.simps) (simp add: Let_def half_def mid_def)
      have bnd: "first + half \<le> length xs" using hl "1.prems" by simp
      have IH: "first \<le> upper_bound_loop xs v first half \<and>
          upper_bound_loop xs v first half \<le> first + half \<and>
          (\<forall>i. first \<le> i \<and> i < upper_bound_loop xs v first half \<longrightarrow> xs ! i \<le> v) \<and>
          (\<forall>i. upper_bound_loop xs v first half \<le> i \<and> i < first + half \<longrightarrow> v < xs ! i)"
        using "1.IH"(1)[OF False half_def mid_def True "1.prems"(1) bnd] .
      have high: "v < xs ! i" if "mid \<le> i" "i < first + len" for i
      proof -
        have "xs ! mid \<le> xs ! i" using that "1.prems" by (simp add: sorted_nth_mono)
        then show ?thesis using True by simp
      qed
      let ?r = "upper_bound_loop xs v first half"
      have c1: "first \<le> ?r" using IH by simp
      have c2: "?r \<le> first + len" using IH hl by linarith
      have c3: "xs ! i \<le> v" if "first \<le> i" "i < ?r" for i
        using IH that by blast
      have c4: "v < xs ! i" if "?r \<le> i" "i < first + len" for i
      proof (cases "i < first + half")
        case True
        then show ?thesis using IH that by blast
      next
        case False
        then have "mid \<le> i" by (simp add: mid_def)
        then show ?thesis using high that by simp
      qed
      show ?thesis
        unfolding eq using c1 c2 c3 c4 by blast
    qed
  qed
qed

lemma lower_bound_spec:
  assumes "sorted xs"
  shows "lower_bound xs v \<le> length xs"
    and "i < lower_bound xs v \<Longrightarrow> xs ! i < v"
    and "lower_bound xs v \<le> i \<Longrightarrow> i < length xs \<Longrightarrow> v \<le> xs ! i"
  using lower_bound_loop_spec[OF assms, of 0 "length xs" v]
  by (auto simp: lower_bound_def not_less)

lemma upper_bound_spec:
  assumes "sorted xs"
  shows "upper_bound xs v \<le> length xs"
    and "i < upper_bound xs v \<Longrightarrow> xs ! i \<le> v"
    and "upper_bound xs v \<le> i \<Longrightarrow> i < length xs \<Longrightarrow> v < xs ! i"
  using upper_bound_loop_spec[OF assms, of 0 "length xs" v]
  by (auto simp: upper_bound_def)

lemma binary_search_iff:
  assumes "sorted xs"
  shows "binary_search xs v \<longleftrightarrow> v \<in> set xs"
proof
  assume bs: "binary_search xs v"
  let ?r = "lower_bound xs v"
  have r: "?r < length xs" and nv: "\<not> v < xs ! ?r"
    using bs lower_bound_spec(1)[OF assms, of v] by (auto simp: binary_search_def Let_def)
  have "v \<le> xs ! ?r" using lower_bound_spec(3)[OF assms, of v ?r] r by simp
  then have "xs ! ?r = v" using nv by simp
  then show "v \<in> set xs" using r by (metis nth_mem)
next
  assume "v \<in> set xs"
  then obtain j where j: "j < length xs" "xs ! j = v" by (auto simp: in_set_conv_nth)
  let ?r = "lower_bound xs v"
  have rj: "?r \<le> j"
  proof (rule ccontr)
    assume "\<not> ?r \<le> j"
    then have "xs ! j < v" using lower_bound_spec(2)[OF assms, of j v] by simp
    then show False using j by simp
  qed
  then have r: "?r < length xs" using j by simp
  have "xs ! ?r \<le> xs ! j" using sorted_nth_mono[OF assms rj j(1)] .
  then have "\<not> v < xs ! ?r" using j by simp
  then show "binary_search xs v" using r by (simp add: binary_search_def Let_def)
qed

section \<open>C1: what the unification does and returns\<close>

text \<open>
  C1, as the code has it. For both operators and every list of sub-results, the result of
  \<open>UnifyResults\<close> is the second component of its trace. Of the empty list nothing is
  consumed and the result is the empty doc set. Of a non-empty list the sub-results are
  consumed in ascending order of size: the log of the trace is a rearrangement
  \<open>smallest # rest\<close> of the sub-results whose sizes ascend, so the accumulator is
  initialised with a sub-result that none is smaller than, and the result is the fold of
  \<open>Merge\<close> over \<open>rest\<close> in that order, starting from \<open>smallest\<close>. When each
  sub-result is sorted ascending and duplicate-free, the result is the sorted union of all
  sub-results for OR, and for AND, of a non-empty list, the sorted intersection of all
  sub-results.
\<close>

theorem UnifyResults_schedule_and_result:
  "UnifyResults subs op = snd (UnifyResults_trace subs op) \<and>
   (subs = [] \<longrightarrow> UnifyResults_trace subs op = ([], [])) \<and>
   (subs \<noteq> [] \<longrightarrow>
      (\<exists>smallest rest.
         fst (UnifyResults_trace subs op) = smallest # rest \<and>
         mset (smallest # rest) = mset subs \<and>
         sorted (map length (smallest # rest)) \<and>
         (\<forall>s \<in> set subs. length smallest \<le> length s) \<and>
         snd (UnifyResults_trace subs op) =
           foldl (\<lambda>out matched. Merge matched out op) smallest rest)) \<and>
   ((\<forall>s \<in> set subs. sorted s \<and> distinct s) \<longrightarrow>
      UnifyResults subs OR_op = sorted_list_of_set (\<Union>s \<in> set subs. set s) \<and>
      (subs \<noteq> [] \<longrightarrow>
         UnifyResults subs AND_op = sorted_list_of_set (\<Inter>s \<in> set subs. set s)))"
proof -
  let ?ss = "sort_key length subs"
  have c1: "UnifyResults subs op = snd (UnifyResults_trace subs op)"
    by (simp add: UnifyResults_def)
  have c2: "subs = [] \<longrightarrow> UnifyResults_trace subs op = ([], [])"
    by (simp add: UnifyResults_trace_def)
  have c3: "subs \<noteq> [] \<longrightarrow>
      (\<exists>smallest rest.
         fst (UnifyResults_trace subs op) = smallest # rest \<and>
         mset (smallest # rest) = mset subs \<and>
         sorted (map length (smallest # rest)) \<and>
         (\<forall>s \<in> set subs. length smallest \<le> length s) \<and>
         snd (UnifyResults_trace subs op) =
           foldl (\<lambda>out matched. Merge matched out op) smallest rest)"
  proof
    assume ne: "subs \<noteq> []"
    then have "?ss \<noteq> []" by (metis length_sort length_0_conv)
    then obtain s0 rest where ss: "?ss = s0 # rest" by (cases ?ss) auto
    have tr: "UnifyResults_trace subs op = (s0 # rest, foldl (\<lambda>acc m. Merge m acc op) s0 rest)"
      using ne ss by (simp add: UnifyResults_trace_def Let_def unify_loop_trace_split)
    have perm: "mset (s0 # rest) = mset subs" using ss by (metis mset_sort)
    have sizes: "sorted (map length (s0 # rest))" using ss by (metis sorted_sort_key)
    have sets: "set subs = insert s0 (set rest)"
      by (metis ss list.simps(15) set_sort)
    have smallest: "\<forall>s \<in> set subs. length s0 \<le> length s"
      using sizes sets by auto
    show "\<exists>smallest rest.
         fst (UnifyResults_trace subs op) = smallest # rest \<and>
         mset (smallest # rest) = mset subs \<and>
         sorted (map length (smallest # rest)) \<and>
         (\<forall>s \<in> set subs. length smallest \<le> length s) \<and>
         snd (UnifyResults_trace subs op) =
           foldl (\<lambda>out matched. Merge matched out op) smallest rest"
      using tr perm sizes smallest by auto
  qed
  have c4: "(\<forall>s \<in> set subs. sorted s \<and> distinct s) \<longrightarrow>
      UnifyResults subs OR_op = sorted_list_of_set (\<Union>s \<in> set subs. set s) \<and>
      (subs \<noteq> [] \<longrightarrow>
         UnifyResults subs AND_op = sorted_list_of_set (\<Inter>s \<in> set subs. set s))"
  proof
    assume a: "\<forall>s \<in> set subs. sorted s \<and> distinct s"
    then have srt: "\<forall>s \<in> set subs. sorted_wrt (<) s"
      by (simp add: strict_sorted_iff)
    have res: "sorted_wrt (<) (UnifyResults subs op') \<and>
        set (UnifyResults subs op') =
          (if op' = AND_op then (\<Inter>s \<in> set subs. set s) else (\<Union>s \<in> set subs. set s))"
      if ne: "subs \<noteq> []" for op'
    proof -
      have "?ss \<noteq> []" using ne by (metis length_sort length_0_conv)
      then obtain s0 rest where ss: "?ss = s0 # rest" by (cases ?ss) auto
      have sets: "set subs = insert s0 (set rest)"
        by (metis ss list.simps(15) set_sort)
      have s1: "\<forall>s \<in> set rest. sorted_wrt (<) s" and s2: "sorted_wrt (<) s0"
        using srt sets by auto
      have u: "UnifyResults subs op' = unify_loop rest s0 op'"
        using ne ss by (simp add: UnifyResults_unfold Let_def)
      show ?thesis
        using unify_loop_sorted[OF s1 s2, of op'] unify_loop_set[OF s1 s2, of op'] sets u by auto
    qed
    have or_res: "UnifyResults subs OR_op = sorted_list_of_set (\<Union>s \<in> set subs. set s)"
    proof (cases "subs = []")
      case True
      then show ?thesis by (simp add: UnifyResults_unfold)
    next
      case False
      from res[OF False, of OR_op] show ?thesis
        using strict_sorted_eq_sorted_list_of_set[of "UnifyResults subs OR_op"] by simp
    qed
    have and_res: "subs \<noteq> [] \<longrightarrow>
        UnifyResults subs AND_op = sorted_list_of_set (\<Inter>s \<in> set subs. set s)"
    proof
      assume ne: "subs \<noteq> []"
      from res[OF ne, of AND_op] show
        "UnifyResults subs AND_op = sorted_list_of_set (\<Inter>s \<in> set subs. set s)"
        using strict_sorted_eq_sorted_list_of_set[of "UnifyResults subs AND_op"] by simp
    qed
    show "UnifyResults subs OR_op = sorted_list_of_set (\<Union>s \<in> set subs. set s) \<and>
      (subs \<noteq> [] \<longrightarrow>
         UnifyResults subs AND_op = sorted_list_of_set (\<Inter>s \<in> set subs. set s))"
      using or_res and_res by blast
  qed
  show ?thesis using c1 c2 c3 c4 by blast
qed

text \<open>The witness: three sub-results of the sizes 4, 2 and 5 under AND. They are consumed
  in the order of the sizes 2, 4 and 5, and the result is their intersection.\<close>

theorem UnifyResults_schedule_and_result_witness:
  "UnifyResults_trace [[1, 2, 3, 5], [2, 5], [2, 3, 5, 8, 9]] AND_op =
     ([[2, 5], [1, 2, 3, 5], [2, 3, 5, 8, 9]], [2, 5]) \<and>
   UnifyResults [[1, 2, 3, 5], [2, 5], [2, 3, 5, 8, 9]] AND_op = [2, 5] \<and>
   (\<exists>smallest rest.
      fst (UnifyResults_trace [[1, 2, 3, 5], [2, 5], [2, 3, 5, 8, 9]] AND_op) = smallest # rest \<and>
      mset (smallest # rest) = mset [[1, 2, 3, 5], [2, 5], [2, 3, 5, 8, 9]] \<and>
      sorted (map length (smallest # rest)) \<and>
      snd (UnifyResults_trace [[1, 2, 3, 5], [2, 5], [2, 3, 5, 8, 9]] AND_op) =
        foldl (\<lambda>out matched. Merge matched out AND_op) smallest rest) \<and>
   UnifyResults [[1, 2, 3, 5], [2, 5], [2, 3, 5, 8, 9]] AND_op =
     sorted_list_of_set (\<Inter>s \<in> set [[1, 2, 3, 5], [2, 5], [2, 3, 5, 8, 9 :: nat]]. set s) \<and>
   UnifyResults [[1, 2, 3, 5], [2, 5], [2, 3, 5, 8, 9]] OR_op =
     sorted_list_of_set (\<Union>s \<in> set [[1, 2, 3, 5], [2, 5], [2, 3, 5, 8, 9 :: nat]]. set s)"
proof -
  let ?subs = "[[1, 2, 3, 5], [2, 5], [2, 3, 5, 8, 9 :: nat]]"
  have h: "\<forall>s \<in> set ?subs. sorted s \<and> distinct s" by simp
  have ne: "?subs \<noteq> []" by simp
  have t: "UnifyResults_trace ?subs AND_op = ([[2, 5], [1, 2, 3, 5], [2, 3, 5, 8, 9]], [2, 5])"
    by code_simp
  have a: "UnifyResults ?subs AND_op = [2, 5]"
    by code_simp
  have "(\<exists>smallest rest.
      fst (UnifyResults_trace ?subs AND_op) = smallest # rest \<and>
      mset (smallest # rest) = mset ?subs \<and>
      sorted (map length (smallest # rest)) \<and>
      snd (UnifyResults_trace ?subs AND_op) =
        foldl (\<lambda>out matched. Merge matched out AND_op) smallest rest) \<and>
    UnifyResults ?subs AND_op = sorted_list_of_set (\<Inter>s \<in> set ?subs. set s) \<and>
    UnifyResults ?subs OR_op = sorted_list_of_set (\<Union>s \<in> set ?subs. set s)"
    using UnifyResults_schedule_and_result[of ?subs AND_op] h ne by blast
  then show ?thesis using t a by blast
qed

text \<open>
  The claim as stated, for every list of sub-results, fails for the empty list under AND:
  the intersection of no sets is the set of all doc ids, and the code returns the empty doc
  set (its first statement).
\<close>

theorem UnifyResults_and_of_nothing_counterexample:
  "UnifyResults [] AND_op = [] \<and>
   (\<Inter>s \<in> set ([] :: DocId list list). set s) = (UNIV :: DocId set) \<and>
   set (UnifyResults [] AND_op) \<noteq> (\<Inter>s \<in> set ([] :: DocId list list). set s)"
  by (simp add: UnifyResults_def UnifyResults_trace_def)

section \<open>Insertion and removal in the sorted vector of doc ids\<close>

lemma sorted_insert_at_upper_bound:
  assumes "sorted xs"
  shows "sorted (take (upper_bound xs v) xs @ v # drop (upper_bound xs v) xs)"
proof -
  let ?i = "upper_bound xs v"
  have le: "\<forall>x \<in> set (take ?i xs). x \<le> v"
  proof
    fix x assume "x \<in> set (take ?i xs)"
    then obtain j where "j < length (take ?i xs)" "take ?i xs ! j = x"
      by (auto simp: in_set_conv_nth)
    then have "j < ?i" "xs ! j = x" by simp_all
    then show "x \<le> v" using upper_bound_spec(2)[OF assms, of j v] by simp
  qed
  have gt: "\<forall>x \<in> set (drop ?i xs). v < x"
  proof
    fix x assume "x \<in> set (drop ?i xs)"
    then obtain j where j: "j < length (drop ?i xs)" "drop ?i xs ! j = x"
      by (auto simp: in_set_conv_nth)
    then have "?i + j < length xs" "xs ! (?i + j) = x" by simp_all
    then show "v < x" using upper_bound_spec(3)[OF assms, of v "?i + j"] by simp
  qed
  have s1: "sorted (take ?i xs)" and s2: "sorted (drop ?i xs)"
    using assms by (simp_all add: sorted_wrt_take sorted_wrt_drop)
  show ?thesis
    using le gt s1 s2 by (fastforce simp: sorted_append)
qed

lemma mset_insert_at: "mset (take i xs @ v # drop i xs) = add_mset v (mset xs)"
  by (metis append_take_drop_id mset.simps(2) mset_append union_mset_add_mset_right)

lemma lower_bound_finds:
  assumes "sorted xs" and "v \<in> set xs"
  shows "lower_bound xs v < length xs \<and> xs ! lower_bound xs v = v"
proof -
  have bs: "binary_search xs v" using assms by (simp add: binary_search_iff)
  let ?r = "lower_bound xs v"
  have r: "?r < length xs" and nv: "\<not> v < xs ! ?r"
    using bs lower_bound_spec(1)[OF assms(1), of v] by (auto simp: binary_search_def Let_def)
  have "v \<le> xs ! ?r" using lower_bound_spec(3)[OF assms(1), of v ?r] r by simp
  then show ?thesis using r nv by simp
qed

lemma mset_remove_at:
  "i < length xs \<Longrightarrow> mset (take i xs @ drop (Suc i) xs) = mset xs - {#xs ! i#}"
  by (metis add_mset_remove_trivial append_take_drop_id Cons_nth_drop_Suc mset.simps(2) mset_append
      union_mset_add_mset_right)

lemma sorted_remove_at: "sorted xs \<Longrightarrow> sorted (take i xs @ drop (Suc i) xs)"
proof -
  assume s: "sorted xs"
  have "\<forall>x \<in> set (take i xs). \<forall>y \<in> set (drop (Suc i) xs). x \<le> y"
  proof (intro ballI)
    fix x y assume "x \<in> set (take i xs)" "y \<in> set (drop (Suc i) xs)"
    then obtain j k where j: "j < length (take i xs)" "take i xs ! j = x"
      and k: "k < length (drop (Suc i) xs)" "drop (Suc i) xs ! k = y"
      by (auto simp: in_set_conv_nth)
    have "j \<le> Suc i + k" "Suc i + k < length xs" "xs ! j = x" "xs ! (Suc i + k) = y"
      using j k by simp_all
    then show "x \<le> y" using sorted_nth_mono[OF s, of j "Suc i + k"] by simp
  qed
  then show ?thesis
    using s by (simp add: sorted_append sorted_wrt_take sorted_wrt_drop)
qed

lemma mset_take_drop: "mset (take i xs) + mset (drop i xs) = mset xs"
  by (metis append_take_drop_id mset_append)

lemma FieldIndices_Add_all_ids:
  assumes "sorted (all_ids fi)"
  shows "sorted (all_ids (FieldIndices_Add ia doc acc fi))"
    and "mset (all_ids (FieldIndices_Add ia doc acc fi)) = add_mset doc (mset (all_ids fi))"
  using sorted_insert_at_upper_bound[OF assms, of doc]
  by (simp_all add: FieldIndices_Add_def Let_def mset_take_drop)

lemma FieldIndices_Remove_present:
  assumes "sorted (all_ids fi)" and "doc \<in> set (all_ids fi)"
  shows "\<exists>fi'. FieldIndices_Remove ir doc acc fi = Inr fi' \<and> sorted (all_ids fi') \<and>
           mset (all_ids fi') = mset (all_ids fi) - {#doc#}"
proof -
  let ?i = "lower_bound (all_ids fi) doc"
  have f: "?i < length (all_ids fi)" "all_ids fi ! ?i = doc"
    using lower_bound_finds[OF assms] by simp_all
  show ?thesis
    using f sorted_remove_at[OF assms(1), of ?i] mset_remove_at[OF f(1)]
    by (simp add: FieldIndices_Remove_def Let_def)
qed

lemma FieldIndices_Remove_absent:
  assumes "sorted (all_ids fi)" and "doc \<notin> set (all_ids fi)"
  shows "FieldIndices_Remove ir doc acc fi =
           Inl (CheckFailed ''it != all_ids_.end() && *it == doc'')"
proof -
  let ?i = "lower_bound (all_ids fi) doc"
  have le: "?i \<le> length (all_ids fi)" using lower_bound_spec(1)[OF assms(1)] .
  have "\<not> (?i \<noteq> length (all_ids fi) \<and> all_ids fi ! ?i = doc)"
  proof
    assume a: "?i \<noteq> length (all_ids fi) \<and> all_ids fi ! ?i = doc"
    then have "?i < length (all_ids fi)" using le by simp
    then show False using a assms(2) by (metis nth_mem)
  qed
  then show ?thesis
    by (simp add: FieldIndices_Remove_def Let_def)
qed

text \<open>The multiset of live docs, call by call.\<close>

lemma run_calls_all_ids:
  "sorted (all_ids fi) \<Longrightarrow> run_calls ia ir calls fi = Inr fi' \<Longrightarrow>
   sorted (all_ids fi') \<and>
   mset (all_ids fi') = mset (all_ids fi) + mset (added calls) - mset (removed calls) \<and>
   mset (removed calls) \<subseteq># mset (all_ids fi) + mset (added calls)"
proof (induction calls arbitrary: fi)
  case Nil
  then show ?case by simp
next
  case (Cons c calls)
  show ?case
  proof (cases c)
    case (AddDoc doc acc)
    let ?fi = "FieldIndices_Add ia doc acc fi"
    have run: "run_calls ia ir calls ?fi = Inr fi'" using Cons.prems AddDoc by simp
    have s: "sorted (all_ids ?fi)" and m: "mset (all_ids ?fi) = add_mset doc (mset (all_ids fi))"
      using FieldIndices_Add_all_ids[OF Cons.prems(1), of ia doc acc] by simp_all
    from Cons.IH[OF s run] show ?thesis
      using AddDoc m by simp
  next
    case (RemoveDoc doc acc)
    show ?thesis
    proof (cases "doc \<in> set (all_ids fi)")
      case False
      then show ?thesis
        using Cons.prems RemoveDoc FieldIndices_Remove_absent[OF Cons.prems(1) False, of ir acc]
        by simp
    next
      case True
      obtain fi1 where r: "FieldIndices_Remove ir doc acc fi = Inr fi1"
        and s: "sorted (all_ids fi1)"
        and m: "mset (all_ids fi1) = mset (all_ids fi) - {#doc#}"
        using FieldIndices_Remove_present[OF Cons.prems(1) True, of ir acc] by blast
      have run: "run_calls ia ir calls fi1 = Inr fi'" using Cons.prems RemoveDoc r by simp
      have mem: "doc \<in># mset (all_ids fi)" using True by simp
      have IH: "sorted (all_ids fi') \<and>
          mset (all_ids fi') = mset (all_ids fi1) + mset (added calls) - mset (removed calls) \<and>
          mset (removed calls) \<subseteq># mset (all_ids fi1) + mset (added calls)"
        using Cons.IH[OF s run] .
      define M where "M = mset (all_ids fi)"
      define A where "A = mset (added calls)"
      define R where "R = mset (removed calls)"
      have m1: "mset (all_ids fi1) = M - {#doc#}" using m by (simp add: M_def)
      have dM: "doc \<in># M" using mem by (simp add: M_def)
      have e1: "M - {#doc#} + A = M + A - {#doc#}"
        using dM by (simp add: multiset_eq_iff)
      have e2: "M + A - {#doc#} - R = M + A - add_mset doc R"
        by (simp add: multiset_eq_iff)
      have sub: "add_mset doc R \<subseteq># M + A"
      proof -
        have "R \<subseteq># M + A - {#doc#}" using IH m1 e1 by (simp add: A_def R_def)
        then have "add_mset doc R \<subseteq># add_mset doc (M + A - {#doc#})"
          by simp
        moreover have "add_mset doc (M + A - {#doc#}) = M + A"
          using dM by simp
        ultimately show ?thesis by simp
      qed
      show ?thesis
        using IH RemoveDoc m1 e1 e2 sub by (simp add: M_def A_def R_def)
    qed
  qed
qed

lemma count_distinct: "distinct ys \<Longrightarrow> count (mset ys) d = (if d \<in> set ys then 1 else 0)"
  by (induction ys) auto

lemma distinct_diff_count:
  assumes "distinct ys" and "mset xs = mset ys - mset rs"
  shows "count (mset xs) d = (if d \<in> set ys \<and> d \<notin> set rs then 1 else 0)"
proof -
  have a: "count (mset ys) d = (if d \<in> set ys then 1 else 0)"
    using assms(1) by (rule count_distinct)
  have r0: "count (mset rs) d = 0" if "d \<notin> set rs"
    using that by (simp add: count_eq_zero_iff)
  have r1: "0 < count (mset rs) d" if "d \<in> set rs"
    using that by simp
  have e: "count (mset xs) d = count (mset ys) d - count (mset rs) d"
    by (simp add: assms(2))
  show ?thesis
  proof (cases "d \<in> set rs")
    case True
    then show ?thesis using e a r1[OF True] by auto
  next
    case False
    then show ?thesis using e a r0[OF False] by auto
  qed
qed

lemma distinct_diff_mem:
  assumes "distinct ys" and "mset xs = mset ys - mset rs"
  shows "d \<in> set xs \<longleftrightarrow> d \<in> set ys - set rs"
proof -
  have "d \<in> set xs \<longleftrightarrow> count (mset xs) d \<noteq> 0"
    by (simp add: count_eq_zero_iff)
  then show ?thesis using distinct_diff_count[OF assms, of d] by simp
qed

lemma distinct_diff_set:
  assumes "distinct ys" and "mset xs = mset ys - mset rs"
  shows "distinct xs \<and> set xs = set ys - set rs"
proof -
  have "count (mset xs) d = (if d \<in> set xs then 1 else 0)" for d
    using distinct_diff_count[OF assms, of d] distinct_diff_mem[OF assms, of d] by simp
  then have "distinct xs"
    by (simp add: distinct_count_atmost_1)
  moreover have "set xs = set ys - set rs"
    using distinct_diff_mem[OF assms] by blast
  ultimately show ?thesis by simp
qed


section \<open>C4: the doc ids of a FieldIndices\<close>

text \<open>
  C4, as the code has it. From a \<open>FieldIndices\<close> whose \<open>all_ids\<close> is sorted (as the
  constructor leaves it) and for every sequence of \<open>Add\<close> and \<open>Remove\<close> calls that runs
  without a failed \<^verbatim>\<open>CHECK\<close>: \<open>all_ids\<close> stays sorted ascending and holds, as a multiset,
  the docs it had and the docs added, less the docs removed. When the sequence starts from no
  docs and adds no doc twice, \<open>all_ids\<close> is the sorted set of the docs added minus the docs
  removed. \<open>Remove\<close> of a doc that is not in \<open>all_ids\<close> fails the \<^verbatim>\<open>CHECK\<close>, and
  \<open>Remove\<close> of a doc that is in it succeeds.
\<close>

theorem FieldIndices_all_ids_sorted_multiset:
  assumes "sorted (all_ids fi)" and "run_calls index_Add index_Remove calls fi = Inr fi'"
  shows "sorted (all_ids fi') \<and>
         mset (all_ids fi') = mset (all_ids fi) + mset (added calls) - mset (removed calls) \<and>
         (all_ids fi = [] \<and> distinct (added calls) \<longrightarrow>
            all_ids fi' = sorted_list_of_set (set (added calls) - set (removed calls))) \<and>
         (\<forall>doc access. doc \<notin> set (all_ids fi') \<longrightarrow>
            FieldIndices_Remove index_Remove doc access fi' =
              Inl (CheckFailed ''it != all_ids_.end() && *it == doc'')) \<and>
         (\<forall>doc access. doc \<in> set (all_ids fi') \<longrightarrow>
            (\<exists>fi''. FieldIndices_Remove index_Remove doc access fi' = Inr fi''))"
proof -
  have inv: "sorted (all_ids fi')"
    and m: "mset (all_ids fi') = mset (all_ids fi) + mset (added calls) - mset (removed calls)"
    using run_calls_all_ids[OF assms] by simp_all
  have lit: "all_ids fi = [] \<and> distinct (added calls) \<longrightarrow>
      all_ids fi' = sorted_list_of_set (set (added calls) - set (removed calls))"
  proof
    assume h: "all_ids fi = [] \<and> distinct (added calls)"
    then have "mset (all_ids fi') = mset (added calls) - mset (removed calls)"
      using m by simp
    then have "distinct (all_ids fi') \<and> set (all_ids fi') = set (added calls) - set (removed calls)"
      using h distinct_diff_set by blast
    then show "all_ids fi' = sorted_list_of_set (set (added calls) - set (removed calls))"
      using inv by (metis sorted_list_of_set.idem_if_sorted_distinct)
  qed
  have absent: "\<forall>doc access. doc \<notin> set (all_ids fi') \<longrightarrow>
      FieldIndices_Remove index_Remove doc access fi' =
        Inl (CheckFailed ''it != all_ids_.end() && *it == doc'')"
  proof (intro allI impI)
    fix doc access assume "doc \<notin> set (all_ids fi')"
    then show "FieldIndices_Remove index_Remove doc access fi' =
        Inl (CheckFailed ''it != all_ids_.end() && *it == doc'')"
      by (rule FieldIndices_Remove_absent[OF inv])
  qed
  have present: "\<forall>doc access. doc \<in> set (all_ids fi') \<longrightarrow>
      (\<exists>fi''. FieldIndices_Remove index_Remove doc access fi' = Inr fi'')"
  proof (intro allI impI)
    fix doc access assume d: "doc \<in> set (all_ids fi')"
    show "\<exists>fi''. FieldIndices_Remove index_Remove doc access fi' = Inr fi''"
      using FieldIndices_Remove_present[OF inv d, of index_Remove access] by blast
  qed
  show ?thesis using inv m lit absent present by blast
qed

text \<open>The witness: docs 3, 1 and 2 are added to a new \<open>FieldIndices\<close> and doc 3 is removed.\<close>

theorem FieldIndices_all_ids_sorted_multiset_witness:
  "map_sum id all_ids
     (run_calls (\<lambda>doc access ident index. index) (\<lambda>doc access ident index. index)
        [AddDoc 3 (), AddDoc 1 (), AddDoc 2 (), RemoveDoc 3 ()]
        (FieldIndices_new (0::nat) [] :: (nat, nat) FieldIndices)) =
   Inr (sorted_list_of_set (set (added [AddDoc 3 (), AddDoc 1 (), AddDoc 2 (), RemoveDoc 3 ()]) -
                            set (removed [AddDoc 3 (), AddDoc 1 (), AddDoc 2 (), RemoveDoc 3 ()]))) \<and>
   map_sum id all_ids
     (run_calls (\<lambda>doc access ident index. index) (\<lambda>doc access ident index. index)
        [AddDoc 3 (), AddDoc 1 (), AddDoc 2 (), RemoveDoc 3 ()]
        (FieldIndices_new (0::nat) [] :: (nat, nat) FieldIndices)) = Inr [1, 2]"
proof -
  let ?calls = "[AddDoc 3 (), AddDoc 1 (), AddDoc 2 (), RemoveDoc 3 ()]"
  let ?new = "FieldIndices_new (0::nat) [] :: (nat, nat) FieldIndices"
  let ?run = "run_calls (\<lambda>doc access ident index. index) (\<lambda>doc access ident index. index) ?calls ?new"
  have ev: "map_sum id all_ids ?run = Inr [1, 2]" by code_simp
  then obtain fi' where run: "?run = Inr fi'" and ids: "all_ids fi' = [1, 2]"
    by (cases ?run) auto
  have s: "sorted (all_ids ?new)" and e: "all_ids ?new = []"
    by (simp_all add: FieldIndices_new_def)
  have d: "distinct (added ?calls)" by simp
  have "all_ids fi' = sorted_list_of_set (set (added ?calls) - set (removed ?calls))"
    using FieldIndices_all_ids_sorted_multiset[OF s run] e d by blast
  then show ?thesis using run ids by simp
qed

text \<open>
  The claim as stated fails when a doc is added twice: after \<open>Add 1\<close>, \<open>Add 1\<close>,
  \<open>Remove 1\<close>, where the removed doc is present when it is removed, \<open>all_ids\<close> is
  \<open>[1]\<close>, and the set of the docs added minus the docs removed is empty.
\<close>

theorem FieldIndices_all_ids_set_counterexample:
  "map_sum id all_ids
     (run_calls (\<lambda>doc access ident index. index) (\<lambda>doc access ident index. index)
        [AddDoc 1 (), AddDoc 1 (), RemoveDoc 1 ()]
        (FieldIndices_new (0::nat) [] :: (nat, nat) FieldIndices)) = Inr [1] \<and>
   sorted_list_of_set (set (added [AddDoc 1 (), AddDoc 1 (), RemoveDoc 1 ()]) -
                       set (removed [AddDoc 1 (), AddDoc 1 (), RemoveDoc 1 ()])) = []"
proof -
  have a: "map_sum id all_ids
     (run_calls (\<lambda>doc access ident index. index) (\<lambda>doc access ident index. index)
        [AddDoc 1 (), AddDoc 1 (), RemoveDoc 1 ()]
        (FieldIndices_new (0::nat) [] :: (nat, nat) FieldIndices)) = Inr [1]"
    by code_simp
  have b: "sorted_list_of_set (set (added [AddDoc 1 (), AddDoc 1 (), RemoveDoc 1 ()]) -
                       set (removed [AddDoc 1 (), AddDoc 1 (), RemoveDoc 1 ()])) = []"
    by simp
  show ?thesis using a b by (rule conjI)
qed

section \<open>The order of floating-point values\<close>

lemma dless_irrefl: "\<not> dless a a"
  by (cases a) auto

lemma dless_trans: "dless a b \<Longrightarrow> dless b c \<Longrightarrow> dless a c"
  by (cases a; cases b; cases c) auto

lemma dless_asym: "dless a b \<Longrightarrow> \<not> dless b a"
  by (cases a; cases b) auto

lemma dless_total: "\<not> isnan a \<Longrightarrow> \<not> isnan b \<Longrightarrow> dless a b \<or> a = b \<or> dless b a"
  by (cases a; cases b) auto

lemma dle_iff_not_dless: "\<not> isnan a \<Longrightarrow> \<not> isnan b \<Longrightarrow> dle a b \<longleftrightarrow> \<not> dless b a"
  by (cases a; cases b) (auto simp: dle_def deq_def)

section \<open>Sorting pairs of a distance and a doc\<close>

lemma pair_less_asym: "pair_less x y \<Longrightarrow> \<not> pair_less y x"
  unfolding pair_less_def using dless_asym by auto

lemma pair_le_trans:
  assumes "\<not> isnan (fst x)" "\<not> isnan (fst y)" "\<not> isnan (fst z)"
    and "\<not> pair_less y x" and "\<not> pair_less z y"
  shows "\<not> pair_less z x"
proof
  assume zx: "pair_less z x"
  have xy: "\<not> dless (fst y) (fst x)" "dless (fst x) (fst y) \<or> \<not> snd y < snd x"
    using assms(4) unfolding pair_less_def by auto
  have yz: "\<not> dless (fst z) (fst y)" "dless (fst y) (fst z) \<or> \<not> snd z < snd y"
    using assms(5) unfolding pair_less_def by auto
  have t1: "dless (fst x) (fst y) \<or> fst x = fst y"
    using dless_total[OF assms(1) assms(2)] xy(1) by auto
  have t2: "dless (fst y) (fst z) \<or> fst y = fst z"
    using dless_total[OF assms(2) assms(3)] yz(1) by auto
  show False
  proof (cases "dless (fst x) (fst y) \<or> dless (fst y) (fst z)")
    case True
    then have "dless (fst x) (fst z)" using t1 t2 dless_trans by metis
    then show False using zx dless_asym unfolding pair_less_def by auto
  next
    case False
    then have e: "fst x = fst y" "fst y = fst z" using t1 t2 by auto
    have "\<not> snd y < snd x" "\<not> snd z < snd y" using xy(2) yz(2) False by auto
    then show False using zx e dless_irrefl unfolding pair_less_def by auto
  qed
qed

lemma unguarded_linear_insert_mset:
  "mset (unguarded_linear_insert val xs) = add_mset val (mset xs)"
  by (induction xs) simp_all

lemma unguarded_linear_insert_sorted:
  assumes "\<not> isnan (fst val)" and "\<forall>x \<in> set xs. \<not> isnan (fst x)"
    and "sorted_wrt (\<lambda>a b. \<not> pair_less a b) xs"
  shows "sorted_wrt (\<lambda>a b. \<not> pair_less a b) (unguarded_linear_insert val xs)"
  using assms(2,3)
proof (induction xs)
  case Nil
  then show ?case by simp
next
  case (Cons p xs)
  show ?case
  proof (cases "pair_less val p")
    case True
    have ih: "sorted_wrt (\<lambda>a b. \<not> pair_less a b) (unguarded_linear_insert val xs)"
      using Cons by simp
    have "set (unguarded_linear_insert val xs) = insert val (set xs)"
      using unguarded_linear_insert_mset[of val xs] by (metis set_mset_add_mset_insert set_mset_mset)
    moreover have "\<not> pair_less p val" using True pair_less_asym by blast
    ultimately show ?thesis using True ih Cons.prems by auto
  next
    case False
    have "\<forall>z \<in> set xs. \<not> pair_less val z"
    proof
      fix z assume z: "z \<in> set xs"
      then have pz: "\<not> pair_less p z" using Cons.prems by auto
      show "\<not> pair_less val z"
        using pair_le_trans[of z p val] z Cons.prems(1) assms(1) pz False by auto
    qed
    then show ?thesis using False Cons.prems by auto
  qed
qed

lemma insertion_sort_loop_mset:
  "mset (insertion_sort_loop pre xs) = mset pre + mset xs"
  by (induction xs arbitrary: pre) (simp_all add: unguarded_linear_insert_mset)

lemma sorted_wrt_rev_flip: "sorted_wrt R (rev xs) = sorted_wrt (\<lambda>a b. R b a) xs"
  by (induction xs) (auto simp: sorted_wrt_append)

lemma insertion_sort_loop_sorted:
  assumes "\<forall>x \<in> set pre \<union> set xs. \<not> isnan (fst x)"
    and "sorted_wrt (\<lambda>a b. \<not> pair_less b a) pre" and "pre \<noteq> []"
  shows "sorted_wrt (\<lambda>a b. \<not> pair_less b a) (insertion_sort_loop pre xs)"
  using assms
proof (induction xs arbitrary: pre)
  case Nil
  then show ?case by simp
next
  case (Cons v xs)
  let ?pre' = "if pair_less v (hd pre) then v # pre
               else rev (unguarded_linear_insert v (rev pre))"
  have nv: "\<not> isnan (fst v)" and np: "\<forall>x \<in> set pre. \<not> isnan (fst x)"
    using Cons.prems(1) by auto
  have m: "mset ?pre' = add_mset v (mset pre)"
    by (simp add: unguarded_linear_insert_mset)
  then have sp: "set ?pre' = insert v (set pre)"
    by (metis set_mset_add_mset_insert set_mset_mset)
  have ne: "?pre' \<noteq> []" using sp by auto
  have s: "sorted_wrt (\<lambda>a b. \<not> pair_less b a) ?pre'"
  proof (cases "pair_less v (hd pre)")
    case True
    obtain h t where pre: "pre = h # t" using Cons.prems(3) by (cases pre) auto
    have vh: "\<not> pair_less h v" using True pre pair_less_asym by auto
    have "\<forall>z \<in> set pre. \<not> pair_less z v"
    proof
      fix z assume z: "z \<in> set pre"
      show "\<not> pair_less z v"
      proof (cases "z = h")
        case True
        then show ?thesis using vh by simp
      next
        case False
        then have "\<not> pair_less z h" using z pre Cons.prems(2) by auto
        then show ?thesis
          using pair_le_trans[of v h z] nv np z pre vh by auto
      qed
    qed
    then show ?thesis using True Cons.prems(2) by simp
  next
    case False
    have "sorted_wrt (\<lambda>a b. \<not> pair_less a b) (rev pre)"
      using Cons.prems(2) by (simp add: sorted_wrt_rev_flip)
    then have "sorted_wrt (\<lambda>a b. \<not> pair_less a b) (unguarded_linear_insert v (rev pre))"
      using unguarded_linear_insert_sorted[OF nv, of "rev pre"] np by simp
    then show ?thesis using False by (simp add: sorted_wrt_rev_flip)
  qed
  have n': "\<forall>x \<in> set ?pre' \<union> set xs. \<not> isnan (fst x)"
    using sp Cons.prems(1) by auto
  show ?case
    using Cons.IH[OF n' s ne] by simp
qed

lemma std_sort_mset: "mset (std_sort xs) = mset xs"
  by (cases xs) (simp_all add: std_sort_def insertion_sort_loop_mset)

lemma std_sort_set: "set (std_sort xs) = set xs"
  using std_sort_mset[of xs] by (metis set_mset_mset)

lemma std_sort_length: "length (std_sort xs) = length xs"
  using std_sort_mset[of xs] by (metis size_mset)

lemma std_sort_sorted:
  assumes "\<forall>x \<in> set xs. \<not> isnan (fst x)"
  shows "sorted_wrt (\<lambda>a b. \<not> pair_less b a) (std_sort xs)"
proof (cases xs)
  case Nil
  then show ?thesis by (simp add: std_sort_def)
next
  case (Cons x rest)
  have "sorted_wrt (\<lambda>a b. \<not> pair_less b a) (insertion_sort_loop [x] rest)"
    using insertion_sort_loop_sorted[of "[x]" rest] assms Cons by auto
  then show ?thesis using Cons by (simp add: std_sort_def)
qed


section \<open>Invariants of the executor\<close>

lemma set_intersection_subset: "set (set_intersection xs ys) \<subseteq> set xs"
  by (induction xs ys rule: set_intersection.induct) auto

lemma Merge_subset: "set (Merge m c op) \<subseteq> set m \<union> set c"
  using set_intersection_subset[of m c] by (auto simp: Merge_def set_union_set)

lemma unify_loop_subset:
  "\<forall>s \<in> set rest. set s \<subseteq> A \<Longrightarrow> set out \<subseteq> A \<Longrightarrow> set (unify_loop rest out op) \<subseteq> A"
proof (induction rest arbitrary: out)
  case Nil
  then show ?case by simp
next
  case (Cons m rest)
  have "set (Merge m out op) \<subseteq> A"
    using Merge_subset[of m out op] Cons.prems by auto
  then show ?case using Cons by simp
qed

lemma UnifyResults_subset:
  assumes "\<forall>s \<in> set subs. set s \<subseteq> A"
  shows "set (UnifyResults subs op) \<subseteq> A"
proof (cases "subs = []")
  case True
  then show ?thesis by (simp add: UnifyResults_unfold)
next
  case False
  let ?ss = "sort_key length subs"
  have ne: "?ss \<noteq> []" using False by (metis length_sort length_0_conv)
  then obtain s0 rest where ss: "?ss = s0 # rest" by (cases ?ss) auto
  have sets: "set subs = insert s0 (set rest)" by (metis ss list.simps(15) set_sort)
  have "set (unify_loop rest s0 op) \<subseteq> A"
    using unify_loop_subset[of rest A s0 op] assms sets by auto
  then show ?thesis using False ss by (simp add: UnifyResults_unfold Let_def)
qed

lemma UnifyResults_strict_sorted:
  assumes "\<forall>s \<in> set subs. sorted_wrt (<) s"
  shows "sorted_wrt (<) (UnifyResults subs op)"
proof (cases "subs = []")
  case True
  then show ?thesis by (simp add: UnifyResults_unfold)
next
  case False
  let ?ss = "sort_key length subs"
  have ne: "?ss \<noteq> []" using False by (metis length_sort length_0_conv)
  then obtain s0 rest where ss: "?ss = s0 # rest" by (cases ?ss) auto
  have sets: "set subs = insert s0 (set rest)" by (metis ss list.simps(15) set_sort)
  have "sorted_wrt (<) (unify_loop rest s0 op)"
    using unify_loop_sorted[of rest s0 op] assms sets by auto
  then show ?thesis using False ss by (simp add: UnifyResults_unfold Let_def)
qed

lemma GetTextIndex_Inr:
  "GetTextIndex dbg fi field = Inr (Some m) \<Longrightarrow> indices fi field = Some (TextIndex m)"
  by (auto simp: GetTextIndex_def GetIndex_def split: option.splits BaseIndex.splits if_splits)

lemma GetTagIndex_Inr:
  "GetTagIndex dbg fi field = Inr (Some m) \<Longrightarrow> indices fi field = Some (TagIndex m)"
  by (auto simp: GetTagIndex_def GetIndex_def split: option.splits BaseIndex.splits if_splits)

lemma GetNumericIndex_Inr:
  "GetNumericIndex dbg fi field = Inr (Some r) \<Longrightarrow> indices fi field = Some (NumericIndex r)"
  by (auto simp: GetNumericIndex_def GetIndex_def split: option.splits BaseIndex.splits if_splits)

lemma GetVectorIndex_Inr:
  "GetVectorIndex dbg fi field = Inr (Some g) \<Longrightarrow> indices fi field = Some (VectorIndex g)"
  by (auto simp: GetVectorIndex_def GetIndex_def split: option.splits BaseIndex.splits if_splits)

lemma GetAllTextIndices_loop_from_indices:
  "GetAllTextIndices_loop dbg fi fs = Inr ms \<Longrightarrow>
   \<forall>m. Some m \<in> set ms \<longrightarrow> (\<exists>field. indices fi field = Some (TextIndex m))"
proof (induction fs arbitrary: ms)
  case Nil
  then show ?case by simp
next
  case (Cons f fs)
  obtain name info where f: "f = (name, info)" by (cases f)
  show ?case
  proof (cases "sf_type info = TEXT")
    case False
    then show ?thesis using Cons f by simp
  next
    case True
    from Cons.prems f True obtain index ms' where
      g: "GetTextIndex dbg fi name = Inr index"
      and l: "GetAllTextIndices_loop dbg fi fs = Inr ms'"
      and ms: "ms = index # ms'"
      by (auto split: sum.splits)
    have "\<forall>m. index = Some m \<longrightarrow> indices fi name = Some (TextIndex m)"
      using g GetTextIndex_Inr by blast
    then show ?thesis using Cons.IH[OF l] ms by auto
  qed
qed

lemma those_Some: "those xs = Some ys \<Longrightarrow> xs = map Some ys"
  by (induction xs arbitrary: ys) (auto split: option.splits)


lemma wf_text:
  "indices_sorted_within fi \<Longrightarrow> indices fi field = Some (TextIndex m) \<Longrightarrow>
   sorted_wrt (<) (m t) \<and> set (m t) \<subseteq> set (all_ids fi)"
  unfolding indices_sorted_within_def by blast

lemma wf_tag:
  "indices_sorted_within fi \<Longrightarrow> indices fi field = Some (TagIndex m) \<Longrightarrow>
   sorted_wrt (<) (m t) \<and> set (m t) \<subseteq> set (all_ids fi)"
  unfolding indices_sorted_within_def by blast

lemma wf_numeric:
  "indices_sorted_within fi \<Longrightarrow> indices fi field = Some (NumericIndex r) \<Longrightarrow>
   sorted_wrt (<) (r lo hi) \<and> set (r lo hi) \<subseteq> set (all_ids fi)"
  unfolding indices_sorted_within_def by blast

lemma wf_all_ids: "indices_sorted_within fi \<Longrightarrow> sorted_wrt (<) (all_ids fi)"
  unfolding indices_sorted_within_def by blast

lemma knn_distances_within:
  assumes "snd ` set d \<subseteq> A" and "set sub \<subseteq> A"
  shows "snd ` set (std_sort (d @ map (\<lambda>doc. (f doc, doc)) sub)) \<subseteq> A"
    and "set (map snd (take k (std_sort (d @ map (\<lambda>doc. (f doc, doc)) sub)))) \<subseteq> A"
proof -
  show a: "snd ` set (std_sort (d @ map (\<lambda>doc. (f doc, doc)) sub)) \<subseteq> A"
    using assms by (auto simp: std_sort_set)
  have "set (take k (std_sort (d @ map (\<lambda>doc. (f doc, doc)) sub))) \<subseteq>
        set (std_sort (d @ map (\<lambda>doc. (f doc, doc)) sub))"
    by (rule set_take_subset)
  then show "set (map snd (take k (std_sort (d @ map (\<lambda>doc. (f doc, doc)) sub)))) \<subseteq> A"
    using a by auto
qed

lemma executor_invariant:
  "indices_sorted_within fi \<Longrightarrow> Search dbg vd fi n af d = Inr (r, d') \<Longrightarrow>
   snd ` set d \<subseteq> set (all_ids fi) \<Longrightarrow>
     set r \<subseteq> set (all_ids fi) \<and> snd ` set d' \<subseteq> set (all_ids fi) \<and>
     (\<not> contains_knn n \<longrightarrow> sorted_wrt (<) r \<and> d' = d)"
  "indices_sorted_within fi \<Longrightarrow> SearchGeneric dbg vd fi n af top_level d = Inr (r, d') \<Longrightarrow>
   snd ` set d \<subseteq> set (all_ids fi) \<Longrightarrow>
     set r \<subseteq> set (all_ids fi) \<and> snd ` set d' \<subseteq> set (all_ids fi) \<and>
     (\<not> contains_knn n \<longrightarrow> sorted_wrt (<) r \<and> d' = d)"
  "indices_sorted_within fi \<Longrightarrow> GetSubResults dbg vd fi ns af d = Inr (rs, d') \<Longrightarrow>
   snd ` set d \<subseteq> set (all_ids fi) \<Longrightarrow>
     (\<forall>r \<in> set rs. set r \<subseteq> set (all_ids fi)) \<and> snd ` set d' \<subseteq> set (all_ids fi) \<and>
     ((\<forall>n \<in> set ns. \<not> contains_knn n) \<longrightarrow> (\<forall>r \<in> set rs. sorted_wrt (<) r) \<and> d' = d)"
proof (induction dbg vd fi n af d and dbg vd fi n af top_level d and dbg vd fi ns af d
    arbitrary: r d' and r d' and rs d' rule: Search_SearchGeneric_GetSubResults.induct)
  case (1 dbg vd fi active_field distances)
  then show ?case by simp
next
  case (2 dbg vd fi active_field distances)
  then show ?case by (auto simp: GetAllDocs_def wf_all_ids split: if_splits)
next
  case (3 dbg vd fi term_str active_field distances)
  show ?case
  proof (cases "active_field \<noteq> []")
    case True
    with "3.prems" obtain m where g: "GetTextIndex dbg fi active_field = Inr (Some m)"
      and r: "r = m term_str" and d: "d' = distances"
      by (auto split: sum.splits option.splits)
    show ?thesis
      using wf_text[OF "3.prems"(1) GetTextIndex_Inr[OF g], of term_str] r d "3.prems"(3) by simp
  next
    case False
    with "3.prems" obtain sel ms where g: "GetAllTextIndices dbg fi = Inr sel"
      and th: "those sel = Some ms"
      and r: "r = UnifyResults (map (\<lambda>index. index term_str) ms) OR_op" and d: "d' = distances"
      by (auto split: sum.splits option.splits)
    have sel: "sel = map Some ms" using those_Some[OF th] .
    have "\<forall>m. Some m \<in> set sel \<longrightarrow> (\<exists>field. indices fi field = Some (TextIndex m))"
      using GetAllTextIndices_loop_from_indices[OF g[unfolded GetAllTextIndices_def]] .
    then have "\<forall>m \<in> set ms. \<exists>field. indices fi field = Some (TextIndex m)"
      unfolding sel by auto
    then have "\<forall>m \<in> set ms. sorted_wrt (<) (m term_str) \<and> set (m term_str) \<subseteq> set (all_ids fi)"
      using wf_text[OF "3.prems"(1)] by blast
    then have "\<forall>s \<in> set (map (\<lambda>index. index term_str) ms). sorted_wrt (<) s"
      and "\<forall>s \<in> set (map (\<lambda>index. index term_str) ms). set s \<subseteq> set (all_ids fi)"
      by auto
    then show ?thesis
      using r d "3.prems"(3) UnifyResults_subset UnifyResults_strict_sorted by simp
  qed
next
  case (4 dbg vd fi lo hi active_field distances)
  from "4.prems" obtain rf where g: "GetNumericIndex dbg fi active_field = Inr (Some rf)"
    and r: "r = rf lo hi" and d: "d' = distances"
    by (auto split: sum.splits if_splits option.splits)
  show ?case
    using wf_numeric[OF "4.prems"(1) GetNumericIndex_Inr[OF g], of lo hi] r d "4.prems"(3) by simp
next
  case (5 dbg vd fi node active_field distances)
  from "5.prems" obtain matched where
    s: "SearchGeneric dbg vd fi node active_field False distances = Inr (matched, d')"
    and r: "r = filter (\<lambda>doc. \<not> binary_search matched doc) (GetAllDocs fi)"
    by (auto split: sum.splits)
  have IH: "set matched \<subseteq> set (all_ids fi) \<and> snd ` set d' \<subseteq> set (all_ids fi) \<and>
     (\<not> contains_knn node \<longrightarrow> sorted_wrt (<) matched \<and> d' = distances)"
    using "5.IH"[OF "5.prems"(1) s "5.prems"(3)] .
  have "sorted_wrt (<) r"
    using wf_all_ids[OF "5.prems"(1)] r by (simp add: GetAllDocs_def sorted_wrt_filter)
  moreover have "set r \<subseteq> set (all_ids fi)" using r by (auto simp: GetAllDocs_def)
  ultimately show ?case using IH by simp
next
  case (6 dbg vd fi op nodes active_field distances)
  from "6.prems" obtain subs where
    s: "GetSubResults dbg vd fi nodes active_field distances = Inr (subs, d')"
    and r: "r = UnifyResults subs op"
    by (auto split: sum.splits)
  have IH: "(\<forall>r \<in> set subs. set r \<subseteq> set (all_ids fi)) \<and> snd ` set d' \<subseteq> set (all_ids fi) \<and>
     ((\<forall>n \<in> set nodes. \<not> contains_knn n) \<longrightarrow> (\<forall>r \<in> set subs. sorted_wrt (<) r) \<and> d' = distances)"
    using "6.IH"[OF "6.prems"(1) s "6.prems"(3)] .
  show ?case
    using IH r UnifyResults_subset[of subs "set (all_ids fi)" op]
      UnifyResults_strict_sorted[of subs op] by auto
next
  case (7 dbg vd fi field node active_field distances)
  from "7.prems" have c: "\<not> (dbg \<and> active_field \<noteq> [])"
    and s: "SearchGeneric dbg vd fi node field False distances = Inr (r, d')"
    by (auto split: if_splits)
  show ?case using "7.IH"[OF c "7.prems"(1) s "7.prems"(3)] by simp
next
  case (8 dbg vd fi tags active_field distances)
  from "8.prems" obtain ti where g: "GetTagIndex dbg fi active_field = Inr ti"
    by (auto split: sum.splits)
  show ?case
  proof (cases ti)
    case None
    then have "r = UnifyResults [] OR_op" and "d' = distances"
      using "8.prems"(2) g by (auto split: if_splits)
    then show ?thesis using "8.prems"(3) by (simp add: UnifyResults_unfold)
  next
    case (Some m)
    then have r: "r = UnifyResults (map m tags) OR_op" and d: "d' = distances"
      using "8.prems"(2) g by auto
    have "\<forall>s \<in> set (map m tags). sorted_wrt (<) s"
      and "\<forall>s \<in> set (map m tags). set s \<subseteq> set (all_ids fi)"
      using wf_tag[OF "8.prems"(1) GetTagIndex_Inr[OF g[unfolded Some]]] by auto
    then show ?thesis
      using r d "8.prems"(3) UnifyResults_subset UnifyResults_strict_sorted by simp
  qed
next
  case (9 dbg vd fi limit field vec filter_node active_field distances)
  from "9.prems" obtain sub d1 vi where c: "\<not> (dbg \<and> active_field \<noteq> [])"
    and s: "SearchGeneric dbg vd fi filter_node active_field False distances = Inr (sub, d1)"
    and g: "GetVectorIndex dbg fi field = Inr vi"
    by (auto simp: Let_def split: sum.splits if_splits)
  have IH: "set sub \<subseteq> set (all_ids fi) \<and> snd ` set d1 \<subseteq> set (all_ids fi)"
    using "9.IH"[OF c "9.prems"(1) s "9.prems"(3)] by simp
  obtain f where d: "d' = std_sort (d1 @ map (\<lambda>doc. (f doc, doc)) sub)"
    and r: "r = map snd (take (min limit (length d')) d')"
  proof (cases vi)
    case None
    then have "sub = []" and "d' = std_sort d1"
      and "r = map snd (take (min limit (length d')) d')"
      using "9.prems"(2) c s g by (auto simp: Let_def split: if_splits)
    then show ?thesis using that[of "\<lambda>doc. NaN"] by simp
  next
    case (Some get)
    then have "d' = std_sort (d1 @ map (\<lambda>doc. (vd vec (get doc), doc)) sub)"
      and "r = map snd (take (min limit (length d')) d')"
      using "9.prems"(2) c s g by (auto simp: Let_def split: if_splits)
    then show ?thesis using that[of "\<lambda>doc. vd vec (get doc)"] by simp
  qed
  show ?case
    using knn_distances_within[where d = d1 and A = "set (all_ids fi)" and sub = sub
        and f = f] IH
    unfolding r d by simp
next
  case (10 dbg vd fi node active_field top_level distances)
  from "10.prems" have s: "Search dbg vd fi node active_field distances = Inr (r, d')"
    by (auto split: sum.splits if_splits)
  show ?case using "10.IH"[OF "10.prems"(1) s "10.prems"(3)] .
next
  case (11 dbg vd fi active_field distances)
  then show ?case by simp
next
  case (12 dbg vd fi node nodes active_field distances)
  from "12.prems" obtain r1 d1 rs1 where
    s: "SearchGeneric dbg vd fi node active_field False distances = Inr (r1, d1)"
    and g: "GetSubResults dbg vd fi nodes active_field d1 = Inr (rs1, d')"
    and rs: "rs = r1 # rs1"
    by (auto split: sum.splits)
  have IH1: "set r1 \<subseteq> set (all_ids fi) \<and> snd ` set d1 \<subseteq> set (all_ids fi) \<and>
     (\<not> contains_knn node \<longrightarrow> sorted_wrt (<) r1 \<and> d1 = distances)"
    using "12.IH"(1)[OF "12.prems"(1) s "12.prems"(3)] .
  then have d1: "snd ` set d1 \<subseteq> set (all_ids fi)" by simp
  have IH2: "(\<forall>r \<in> set rs1. set r \<subseteq> set (all_ids fi)) \<and> snd ` set d' \<subseteq> set (all_ids fi) \<and>
     ((\<forall>n \<in> set nodes. \<not> contains_knn n) \<longrightarrow> (\<forall>r \<in> set rs1. sorted_wrt (<) r) \<and> d' = d1)"
    using "12.IH"(2)[OF s refl "12.prems"(1) g d1] .
  show ?case using IH1 IH2 rs by auto
qed


section \<open>C10: unifying no sub-results\<close>

lemma GetAllTextIndices_loop_no_text:
  "\<forall>f \<in> set fs. sf_type (snd f) \<noteq> TEXT \<Longrightarrow> GetAllTextIndices_loop dbg fi fs = Inr []"
  by (induction fs) auto

text \<open>
  C10. \<open>UnifyResults\<close> of no sub-results is the empty doc set for AND and for OR. So a
  logical node without children evaluates to the empty result, in every context and as a
  whole query; a term without active field evaluates to the empty result when the schema has
  no TEXT field; and a tags node without tags evaluates to the empty result when the active
  field has a tag index. None of them fails, and none changes the distances.
\<close>

theorem unify_nothing_is_empty:
  "UnifyResults [] AND_op = [] \<and> UnifyResults [] OR_op = [] \<and>
   SearchGeneric dbg vd fi (AstLogicalNode op []) active_field top_level distances =
     Inr ([], distances) \<and>
   Search_query dbg vd fi (AstLogicalNode op []) = Inr \<lparr>ids = [], knn_distances = []\<rparr> \<and>
   ((\<forall>f \<in> set (schema fi). sf_type (snd f) \<noteq> TEXT) \<longrightarrow>
      SearchGeneric dbg vd fi (AstTermNode term_str) [] top_level distances = Inr ([], distances)) \<and>
   ((\<exists>m. GetIndex fi active_field = Some (TagIndex m)) \<longrightarrow>
      SearchGeneric dbg vd fi (AstTagsNode []) active_field top_level distances =
        Inr ([], distances))"
proof -
  have u: "UnifyResults [] AND_op = []" "UnifyResults [] OR_op = []" "UnifyResults [] op = []"
    by (simp_all add: UnifyResults_unfold)
  have l: "SearchGeneric dbg vd fi (AstLogicalNode op []) active_field top_level distances =
      Inr ([], distances)" for active_field top_level distances
    by (simp add: u)
  have q: "Search_query dbg vd fi (AstLogicalNode op []) = Inr \<lparr>ids = [], knn_distances = []\<rparr>"
    unfolding Search_query_def l by simp
  have t: "(\<forall>f \<in> set (schema fi). sf_type (snd f) \<noteq> TEXT) \<longrightarrow>
      SearchGeneric dbg vd fi (AstTermNode term_str) [] top_level distances = Inr ([], distances)"
  proof
    assume "\<forall>f \<in> set (schema fi). sf_type (snd f) \<noteq> TEXT"
    then have "GetAllTextIndices dbg fi = Inr []"
      unfolding GetAllTextIndices_def by (rule GetAllTextIndices_loop_no_text)
    then show "SearchGeneric dbg vd fi (AstTermNode term_str) [] top_level distances =
        Inr ([], distances)"
      by (simp add: u)
  qed
  have g: "(\<exists>m. GetIndex fi active_field = Some (TagIndex m)) \<longrightarrow>
      SearchGeneric dbg vd fi (AstTagsNode []) active_field top_level distances =
        Inr ([], distances)"
  proof
    assume "\<exists>m. GetIndex fi active_field = Some (TagIndex m)"
    then obtain m where "GetIndex fi active_field = Some (TagIndex m)" by blast
    then have "GetTagIndex dbg fi active_field = Inr (Some m)" by (simp add: GetTagIndex_def)
    then show "SearchGeneric dbg vd fi (AstTagsNode []) active_field top_level distances =
        Inr ([], distances)"
      by (simp add: u)
  qed
  show ?thesis using u(1,2) l q t g by blast
qed

text \<open>The witness: a schema with one TAG field and no TEXT field.\<close>

theorem unify_nothing_is_empty_witness:
  "SearchGeneric True (\<lambda>a b. Finite 0)
     \<lparr>schema = [(''tag'', \<lparr>sf_identifier = ''tag'', sf_type = TAG\<rparr>)], all_ids = [1, 2],
      indices = [''tag'' \<mapsto> TagIndex (\<lambda>t. if t = ''sale'' then [1, 2] else [])]\<rparr>
     (AstTermNode ''apple'' :: (nat, nat) AstNode) [] True [] = Inr ([], []) \<and>
   SearchGeneric True (\<lambda>a b. Finite 0)
     \<lparr>schema = [(''tag'', \<lparr>sf_identifier = ''tag'', sf_type = TAG\<rparr>)], all_ids = [1, 2],
      indices = [''tag'' \<mapsto> TagIndex (\<lambda>t. if t = ''sale'' then [1, 2] else [])]\<rparr>
     (AstTagsNode [] :: (nat, nat) AstNode) ''tag'' False [] = Inr ([], [])"
proof -
  let ?fi = "\<lparr>schema = [(''tag'', \<lparr>sf_identifier = ''tag'', sf_type = TAG\<rparr>)], all_ids = [1, 2],
      indices = [''tag'' \<mapsto> TagIndex (\<lambda>t. if t = ''sale'' then [1, 2] else [])]\<rparr>
      :: (nat, nat) FieldIndices"
  have h1: "\<forall>f \<in> set (schema ?fi). sf_type (snd f) \<noteq> TEXT" by simp
  have h2: "\<exists>m. GetIndex ?fi ''tag'' = Some (TagIndex m)" by (simp add: GetIndex_def)
  show ?thesis
    using unify_nothing_is_empty[of True "\<lambda>a b. Finite 0" ?fi _ "''tag''" _ "[]" "''apple''"] h1 h2
    by blast
qed

section \<open>C8: double negation\<close>

text \<open>
  C8, as the code has it. Over indices that keep \<open>all_ids\<close> and their results sorted and
  within \<open>all_ids\<close>: when a query \<open>q\<close> evaluates as a sub-query (below the top level)
  to a result sorted by doc id, \<open>Negate (Negate q)\<close> evaluates too, at any level, to a result
  with exactly the doc ids of \<open>q\<close>'s, and leaves the same distances. In a debug build
  the sortedness of the result is what the executor's \<^verbatim>\<open>DCHECK\<close> has checked.
\<close>

theorem double_negation_same_docs:
  assumes "indices_sorted_within fi"
    and "snd ` set distances \<subseteq> set (all_ids fi)"
    and "SearchGeneric dbg vd fi q active_field False distances = Inr (r, distances')"
    and "sorted r"
  shows "\<exists>r2. SearchGeneric dbg vd fi (AstNegateNode (AstNegateNode q)) active_field top_level
                 distances = Inr (r2, distances') \<and>
              set r2 = set r"
proof -
  let ?all = "all_ids fi"
  let ?n1 = "filter (\<lambda>doc. \<not> binary_search r doc) ?all"
  let ?n2 = "filter (\<lambda>doc. \<not> binary_search ?n1 doc) ?all"
  have sub: "set r \<subseteq> set ?all"
    using executor_invariant(2)[OF assms(1) assms(3) assms(2)] by simp
  have sall: "sorted ?all"
    using wf_all_ids[OF assms(1)] by (simp add: strict_sorted_iff)
  have s1: "sorted ?n1" using sall by (simp add: sorted_wrt_filter)
  have s2: "sorted ?n2" using sall by (simp add: sorted_wrt_filter)
  have inner: "Search dbg vd fi (AstNegateNode q) active_field distances = Inr (?n1, distances')"
    using assms(3) by (simp add: GetAllDocs_def)
  have innerG: "SearchGeneric dbg vd fi (AstNegateNode q) active_field False distances =
      Inr (?n1, distances')"
    using inner s1 by simp
  have outer: "Search dbg vd fi (AstNegateNode (AstNegateNode q)) active_field distances =
      Inr (?n2, distances')"
    using innerG by (simp add: GetAllDocs_def del: SearchGeneric.simps)
  have outerG: "SearchGeneric dbg vd fi (AstNegateNode (AstNegateNode q)) active_field top_level
      distances = Inr (?n2, distances')"
    using outer s2 by (simp del: Search.simps)
  have m1: "set ?n1 = set ?all - set r"
    using binary_search_iff[OF assms(4)] by auto
  have m2: "set ?n2 = set ?all - set ?n1"
    using binary_search_iff[OF s1] by auto
  have "set ?n2 = set r" using m1 m2 sub by auto
  then show ?thesis using outerG by blast
qed

text \<open>The witness: docs 1 and 2 hold the token \<open>apple\<close>, doc 3 the token \<open>banana\<close>.\<close>

theorem double_negation_same_docs_witness:
  "\<exists>r2. SearchGeneric True (\<lambda>a b. Finite 0)
      \<lparr>schema = [(''title'', \<lparr>sf_identifier = ''title'', sf_type = TEXT\<rparr>)], all_ids = [1, 2, 3],
       indices = [''title'' \<mapsto>
         TextIndex (\<lambda>t. if t = ''apple'' then [1, 2] else if t = ''banana'' then [3] else [])]\<rparr>
      (AstNegateNode (AstNegateNode (AstTermNode ''apple'')) :: (nat, nat) AstNode)
      ''title'' True [] = Inr (r2, []) \<and> set r2 = set [1, 2]"
proof -
  let ?fi = "\<lparr>schema = [(''title'', \<lparr>sf_identifier = ''title'', sf_type = TEXT\<rparr>)],
       all_ids = [1, 2, 3],
       indices = [''title'' \<mapsto>
         TextIndex (\<lambda>t. if t = ''apple'' then [1, 2] else if t = ''banana'' then [3] else [])]\<rparr>
       :: (nat, nat) FieldIndices"
  have wf: "indices_sorted_within ?fi"
    by (auto simp: indices_sorted_within_def split: if_splits)
  have d: "snd ` set ([] :: (float32 \<times> DocId) list) \<subseteq> set (all_ids ?fi)" by simp
  have ev: "SearchGeneric True (\<lambda>a b. Finite 0) ?fi (AstTermNode ''apple'') ''title'' False [] =
      Inr ([1, 2], [])"
    by (simp add: GetTextIndex_def GetIndex_def)
  have s: "sorted [1, 2 :: nat]" by simp
  show ?thesis
    using double_negation_same_docs[OF wf d ev s, of True] .
qed

text \<open>
  The claim as stated fails for a query that evaluates at the top level only. Docs 1, 2 and
  3 have the vectors 1, 2 and 0, and the distance of two vectors is their difference. The
  query \<open>KNN 2\<close> of the vector 0 over all docs evaluates to the docs \<open>[3, 1]\<close>, nearest
  first. Wrapped in two negations, the debug build fails the sortedness \<^verbatim>\<open>DCHECK\<close> on
  the KNN result, and the release build searches the unsorted result by bisection and
  returns no doc.
\<close>

theorem double_negation_knn_counterexample:
  "Search_query True (\<lambda>a b. Finite (real (if a \<le> b then b - a else a - b)))
     \<lparr>schema = [(''v'', \<lparr>sf_identifier = ''v'', sf_type = VECTOR\<rparr>)], all_ids = [1, 2, 3],
      indices = [''v'' \<mapsto> VectorIndex (\<lambda>doc. if doc = 3 then 0 else doc)]\<rparr>
     (AstKnnNode 2 ''v'' (0::nat) AstStarNode :: (nat, nat) AstNode) =
     Inr \<lparr>ids = [3, 1], knn_distances = [Finite 0, Finite 1]\<rparr> \<and>
   Search_query True (\<lambda>a b. Finite (real (if a \<le> b then b - a else a - b)))
     \<lparr>schema = [(''v'', \<lparr>sf_identifier = ''v'', sf_type = VECTOR\<rparr>)], all_ids = [1, 2, 3],
      indices = [''v'' \<mapsto> VectorIndex (\<lambda>doc. if doc = 3 then 0 else doc)]\<rparr>
     (AstNegateNode (AstNegateNode (AstKnnNode 2 ''v'' (0::nat) AstStarNode)) :: (nat, nat) AstNode) =
     Inl (DcheckFailed ''is_sorted'') \<and>
   Search_query False (\<lambda>a b. Finite (real (if a \<le> b then b - a else a - b)))
     \<lparr>schema = [(''v'', \<lparr>sf_identifier = ''v'', sf_type = VECTOR\<rparr>)], all_ids = [1, 2, 3],
      indices = [''v'' \<mapsto> VectorIndex (\<lambda>doc. if doc = 3 then 0 else doc)]\<rparr>
     (AstKnnNode 2 ''v'' (0::nat) AstStarNode :: (nat, nat) AstNode) =
     Inr \<lparr>ids = [3, 1], knn_distances = [Finite 0, Finite 1]\<rparr> \<and>
   Search_query False (\<lambda>a b. Finite (real (if a \<le> b then b - a else a - b)))
     \<lparr>schema = [(''v'', \<lparr>sf_identifier = ''v'', sf_type = VECTOR\<rparr>)], all_ids = [1, 2, 3],
      indices = [''v'' \<mapsto> VectorIndex (\<lambda>doc. if doc = 3 then 0 else doc)]\<rparr>
     (AstNegateNode (AstNegateNode (AstKnnNode 2 ''v'' (0::nat) AstStarNode)) :: (nat, nat) AstNode) =
     Inr \<lparr>ids = [], knn_distances = []\<rparr>"
  by code_simp

section \<open>C2: the nearest neighbours of a top-level KNN node\<close>

lemma dless_pair_less: "dless (fst b) (fst a) \<Longrightarrow> pair_less b a"
  by (simp add: pair_less_def)

lemma knn_pairs:
  fixes f :: "nat \<Rightarrow> float32"
  assumes "distinct F" and "\<forall>doc \<in> set F. \<not> isnan (f doc)"
  defines "P \<equiv> std_sort (map (\<lambda>doc. (f doc, doc)) F)"
  shows "length P = length F"
    and "\<forall>p \<in> set P. fst p = f (snd p)"
    and "set (map snd P) = set F"
    and "distinct (map snd P)"
    and "sorted_wrt (\<lambda>a b. \<not> pair_less b a) P"
    and "\<forall>p \<in> set P. \<not> isnan (fst p)"
proof -
  show "length P = length F" by (simp add: P_def std_sort_length)
  show fs: "\<forall>p \<in> set P. fst p = f (snd p)" by (auto simp: P_def std_sort_set)
  have m: "mset (map snd P) = mset F"
  proof -
    have "mset P = mset (map (\<lambda>doc. (f doc, doc)) F)" by (simp add: P_def std_sort_mset)
    then have "mset (map snd P) = mset (map snd (map (\<lambda>doc. (f doc, doc)) F))"
      by (metis mset_map)
    then show ?thesis by (simp add: comp_def)
  qed
  show "set (map snd P) = set F" using m by (metis set_mset_mset)
  show "distinct (map snd P)" using m assms(1) by (metis mset_eq_imp_distinct_iff)
  have nn: "\<forall>x \<in> set (map (\<lambda>doc. (f doc, doc)) F). \<not> isnan (fst x)"
    using assms(2) by auto
  show "sorted_wrt (\<lambda>a b. \<not> pair_less b a) P"
    unfolding P_def using std_sort_sorted[OF nn] .
  show "\<forall>p \<in> set P. \<not> isnan (fst p)"
    using nn by (simp add: P_def std_sort_set)
qed

lemma knn_pairs_ascending:
  fixes f :: "nat \<Rightarrow> float32"
  assumes "distinct F" and "\<forall>doc \<in> set F. \<not> isnan (f doc)"
  shows "sorted_wrt dle (map fst (std_sort (map (\<lambda>doc. (f doc, doc)) F)))"
proof -
  let ?P = "std_sort (map (\<lambda>doc. (f doc, doc)) F)"
  have srt: "sorted_wrt (\<lambda>a b. \<not> pair_less b a) ?P"
    and nn: "\<forall>p \<in> set ?P. \<not> isnan (fst p)"
    using knn_pairs(5,6)[OF assms] by simp_all
  have "dle (fst a) (fst b)"
    if "a \<in> set ?P" "b \<in> set ?P" "\<not> pair_less b a" for a b
  proof -
    have "\<not> dless (fst b) (fst a)" using that(3) dless_pair_less by blast
    then show ?thesis using dle_iff_not_dless[of "fst a" "fst b"] nn that(1,2) by simp
  qed
  then have "sorted_wrt (\<lambda>a b. dle (fst a) (fst b)) ?P"
    using sorted_wrt_mono_rel[of ?P "\<lambda>a b. \<not> pair_less b a" "\<lambda>a b. dle (fst a) (fst b)"] srt
    by blast
  then show ?thesis by (simp add: sorted_wrt_map)
qed

lemma take_nearest:
  fixes f :: "nat \<Rightarrow> float32"
  assumes "distinct F" and "\<forall>doc \<in> set F. \<not> isnan (f doc)"
  defines "P \<equiv> std_sort (map (\<lambda>doc. (f doc, doc)) F)"
  shows "\<forall>x \<in> set (map snd (take k P)). \<forall>y \<in> set F - set (map snd (take k P)). dle (f x) (f y)"
proof (intro ballI)
  fix x y assume x: "x \<in> set (map snd (take k P))" and y: "y \<in> set F - set (map snd (take k P))"
  have fs: "\<forall>p \<in> set P. fst p = f (snd p)" and sf: "set (map snd P) = set F"
    and srt: "sorted_wrt (\<lambda>a b. \<not> pair_less b a) P"
    using knn_pairs[OF assms(1,2)] by (simp_all add: P_def)
  from x obtain i where i: "i < length (take k P)" "snd (take k P ! i) = x"
    by (auto simp: in_set_conv_nth)
  then have ik: "i < k" "i < length P" "snd (P ! i) = x" by simp_all
  have "y \<in> set (map snd P)" using y sf by simp
  then obtain j where "j < length (map snd P)" "map snd P ! j = y"
    unfolding in_set_conv_nth by blast
  then have j: "j < length P" "snd (P ! j) = y" by simp_all
  have "\<not> j < k"
  proof
    assume "j < k"
    then have "j < length (take k P)" "snd (take k P ! j) = y" using j by simp_all
    then have "y \<in> set (map snd (take k P))"
      by (metis (no_types, lifting) length_map nth_map nth_mem)
    then show False using y by simp
  qed
  then have ij: "i < j" using ik by simp
  have "\<not> pair_less (P ! j) (P ! i)"
    using sorted_wrt_nth_less[OF srt ij j(1)] .
  then have nl: "\<not> dless (fst (P ! j)) (fst (P ! i))" using dless_pair_less by blast
  have fx: "fst (P ! i) = f x" using fs ik by (metis nth_mem)
  have fy: "fst (P ! j) = f y" using fs j by (metis nth_mem)
  have "x \<in> set F" using sf ik by (metis length_map nth_map nth_mem)
  moreover have "y \<in> set F" using y by simp
  ultimately have "\<not> isnan (f x)" "\<not> isnan (f y)" using assms(2) by auto
  then show "dle (f x) (f y)"
    using dle_iff_not_dless[of "f x" "f y"] nl fx fy by simp
qed

lemma Search_query_knn_free:
  assumes "indices_sorted_within fi" and "\<not> contains_knn q"
    and "Search_query dbg vd fi q = Inr res"
  shows "knn_distances res = []"
proof -
  from assms(3) obtain r d' where s: "SearchGeneric dbg vd fi q [] True [] = Inr (r, d')"
    unfolding Search_query_def by (auto split: sum.splits)
  have "d' = []"
    using executor_invariant(2)[OF assms(1) s] assms(2) by simp
  then show ?thesis
    using assms(3) s unfolding Search_query_def by auto
qed

lemma take_min_length: "take (min n (length xs)) xs = take n xs"
  by (cases "n \<le> length xs") (simp_all add: min_def)

lemma Search_query_knn:
  assumes "SearchGeneric dbg vd fi filter_node [] False [] = Inr (F, [])"
    and "GetVectorIndex dbg fi field = Inr (Some g)"
  shows "Search_query dbg vd fi (AstKnnNode limit field vec filter_node) =
     Inr \<lparr>ids = map snd (take limit (std_sort (map (\<lambda>doc. (vd vec (g doc), doc)) F))),
          knn_distances = map fst (take limit (std_sort (map (\<lambda>doc. (vd vec (g doc), doc)) F)))\<rparr>"
proof -
  let ?P = "std_sort (map (\<lambda>doc. (vd vec (g doc), doc)) F)"
  have tk: "take (min limit (length ?P)) ?P = take limit ?P"
    by (rule take_min_length)
  have s: "Search dbg vd fi (AstKnnNode limit field vec filter_node) [] [] =
      Inr (map snd (take limit ?P), ?P)"
    using assms tk by (simp add: Let_def del: SearchGeneric.simps)
  have g: "SearchGeneric dbg vd fi (AstKnnNode limit field vec filter_node) [] True [] =
      Inr (map snd (take limit ?P), ?P)"
    using s by (simp del: Search.simps)
  show ?thesis
  proof (cases "?P = []")
    case True
    then show ?thesis unfolding Search_query_def g by simp
  next
    case False
    have "take (length (take limit ?P)) ?P = take limit ?P"
      by (simp add: min.commute take_min_length)
    then show ?thesis unfolding Search_query_def g using False by simp
  qed
qed

text \<open>
  C2, as the code has it. Over indices that keep \<open>all_ids\<close> and their results sorted, for
  a KNN node at the root whose filter holds no further KNN node and evaluates to the docs
  \<open>F\<close>, whose field has a vector index, and where no doc of \<open>F\<close> is at a NaN distance
  from the query vector: the whole query returns the first \<open>limit\<close> of the (distance, doc)
  pairs of \<open>F\<close> in the order \<^verbatim>\<open>std::sort\<close> leaves them, the distances in
  \<open>knn_distances\<close> and the docs in \<open>ids\<close>. So it returns \<open>min limit |F|\<close> distinct
  docs of \<open>F\<close>, each at most as far from the query vector as every doc of \<open>F\<close> it leaves
  out; the distance at position \<open>i\<close> is the distance of the doc at position \<open>i\<close>; and
  the distances ascend. There is one distance for each doc returned, so no distances are
  returned exactly when the limit is 0 or the filter matches no doc; and a query without a
  KNN node returns no distances. The distance function \<open>vd\<close> is a parameter: the statement
  holds for the Euclidean distance as for any other.
\<close>

theorem knn_top_level_nearest:
  assumes "indices_sorted_within fi"
    and "\<not> contains_knn filter_node"
    and "SearchGeneric dbg vd fi filter_node [] False [] = Inr (F, ds)"
    and "GetVectorIndex dbg fi field = Inr (Some g)"
    and "\<forall>doc \<in> set F. \<not> isnan (vd vec (g doc))"
  shows "\<exists>res. Search_query dbg vd fi (AstKnnNode limit field vec filter_node) = Inr res \<and>
      zip (knn_distances res) (ids res) =
        take limit (std_sort (map (\<lambda>doc. (vd vec (g doc), doc)) F)) \<and>
      length (ids res) = min limit (length F) \<and>
      length (knn_distances res) = length (ids res) \<and>
      set (ids res) \<subseteq> set F \<and> distinct (ids res) \<and>
      (\<forall>x \<in> set (ids res). \<forall>y \<in> set F - set (ids res). dle (vd vec (g x)) (vd vec (g y))) \<and>
      (\<forall>i < length (ids res). knn_distances res ! i = vd vec (g (ids res ! i))) \<and>
      sorted_wrt dle (knn_distances res) \<and>
      (knn_distances res = [] \<longleftrightarrow> limit = 0 \<or> F = []) \<and>
      (\<forall>q. \<not> contains_knn q \<longrightarrow>
         (\<forall>res'. Search_query dbg vd fi q = Inr res' \<longrightarrow> knn_distances res' = []))"
proof -
  let ?f = "\<lambda>doc. vd vec (g doc)"
  let ?P = "std_sort (map (\<lambda>doc. (?f doc, doc)) F)"
  let ?res = "\<lparr>ids = map snd (take limit ?P), knn_distances = map fst (take limit ?P)\<rparr>"
  have inv: "sorted_wrt (<) F \<and> ds = []"
    using executor_invariant(2)[OF assms(1) assms(3)] assms(2) by simp
  then have dF: "distinct F" by (simp add: strict_sorted_iff)
  have ev: "SearchGeneric dbg vd fi filter_node [] False [] = Inr (F, [])"
    using assms(3) inv by simp
  have q: "Search_query dbg vd fi (AstKnnNode limit field vec filter_node) = Inr ?res"
    using Search_query_knn[OF ev assms(4)] .
  have kp: "length ?P = length F" "\<forall>p \<in> set ?P. fst p = ?f (snd p)"
    "set (map snd ?P) = set F" "distinct (map snd ?P)"
    using knn_pairs(1-4)[OF dF assms(5)] by simp_all
  have asc: "sorted_wrt dle (map fst ?P)"
    using knn_pairs_ascending[OF dF assms(5)] .
  have c1: "zip (knn_distances ?res) (ids ?res) = take limit ?P"
    by (simp add: zip_map_fst_snd)
  have c2: "length (ids ?res) = min limit (length F)"
    using kp(1) by (simp add: min.commute)
  have c3: "length (knn_distances ?res) = length (ids ?res)" by simp
  have sub: "set (take limit ?P) \<subseteq> set ?P" by (rule set_take_subset)
  have c4: "set (ids ?res) \<subseteq> set F"
    using kp(3) sub by auto
  have c5: "distinct (ids ?res)"
    using kp(4) by (simp add: take_map[symmetric] del: take_map)
  have c6: "\<forall>x \<in> set (ids ?res). \<forall>y \<in> set F - set (ids ?res). dle (?f x) (?f y)"
    using take_nearest[OF dF assms(5), of limit] by simp
  have c7: "\<forall>i < length (ids ?res). knn_distances ?res ! i = ?f (ids ?res ! i)"
  proof (intro allI impI)
    fix i assume "i < length (ids ?res)"
    then have i: "i < length (take limit ?P)" by simp
    then have "take limit ?P ! i \<in> set ?P" using sub nth_mem by blast
    then have "fst (take limit ?P ! i) = ?f (snd (take limit ?P ! i))" using kp(2) by blast
    then show "knn_distances ?res ! i = ?f (ids ?res ! i)" using i by simp
  qed
  have c8: "sorted_wrt dle (knn_distances ?res)"
    using asc by (simp add: take_map[symmetric] sorted_wrt_take del: take_map)
  have l9: "length (knn_distances ?res) = min limit (length F)"
    using c2 c3 by simp
  have m9: "(min limit (length F) = 0) = (limit = 0 \<or> F = [])"
    by (cases F; cases limit) simp_all
  have e9: "(knn_distances ?res = []) = (length (knn_distances ?res) = 0)"
    by (rule length_0_conv[symmetric])
  have c9: "knn_distances ?res = [] \<longleftrightarrow> limit = 0 \<or> F = []"
    unfolding e9 l9 by (rule m9)
  have c10: "\<forall>q. \<not> contains_knn q \<longrightarrow>
         (\<forall>res'. Search_query dbg vd fi q = Inr res' \<longrightarrow> knn_distances res' = [])"
    using Search_query_knn_free[OF assms(1)] by blast
  show ?thesis
    using q c1 c2 c3 c4 c5 c6 c7 c8 c9 c10 by blast
qed

text \<open>The witness: docs 1, 2 and 3 with the vectors 1, 2 and 0, the distance of two vectors
  their difference, and the two nearest neighbours of the vector 0 among all docs.\<close>

theorem knn_top_level_nearest_witness:
  "\<exists>res. Search_query True (\<lambda>a b. Finite (real (if a \<le> b then b - a else a - b)))
      \<lparr>schema = [(''v'', \<lparr>sf_identifier = ''v'', sf_type = VECTOR\<rparr>)], all_ids = [1, 2, 3],
       indices = [''v'' \<mapsto> VectorIndex (\<lambda>doc. if doc = 3 then 0 else doc)]\<rparr>
      (AstKnnNode 2 ''v'' (0::nat) AstStarNode :: (nat, nat) AstNode) = Inr res \<and>
     zip (knn_distances res) (ids res) = [(Finite 0, 3), (Finite 1, 1)] \<and>
     length (ids res) = 2 \<and> distinct (ids res) \<and> sorted_wrt dle (knn_distances res) \<and>
     knn_distances res \<noteq> []"
proof -
  let ?vd = "\<lambda>a b :: nat. Finite (real (if a \<le> b then b - a else a - b))"
  let ?g = "\<lambda>doc :: nat. if doc = 3 then 0 else doc"
  let ?fi = "\<lparr>schema = [(''v'', \<lparr>sf_identifier = ''v'', sf_type = VECTOR\<rparr>)], all_ids = [1, 2, 3],
       indices = [''v'' \<mapsto> VectorIndex ?g]\<rparr> :: (nat, nat) FieldIndices"
  have wf: "indices_sorted_within ?fi"
    by (simp add: indices_sorted_within_def)
  have nk: "\<not> contains_knn (AstStarNode :: (nat, nat) AstNode)" by simp
  have ev: "SearchGeneric True ?vd ?fi AstStarNode [] False [] = Inr ([1, 2, 3], [])"
    by (simp add: GetAllDocs_def)
  have vi: "GetVectorIndex True ?fi ''v'' = Inr (Some ?g)"
    by (simp add: GetVectorIndex_def GetIndex_def)
  have nn: "\<forall>doc \<in> set [1, 2, 3]. \<not> isnan (?vd 0 (?g doc))" by simp
  have srt: "take 2 (std_sort (map (\<lambda>doc. (?vd 0 (?g doc), doc)) [1, 2, 3])) =
      [(Finite 0, 3), (Finite 1, 1)]"
    by code_simp
  have len: "min 2 (length [1, 2, 3 :: nat]) = 2" by simp
  have ne: "\<not> ((2::nat) = 0 \<or> [1, 2, 3 :: nat] = [])" by simp
  show ?thesis
    using knn_top_level_nearest[OF wf nk ev vi nn, of 2] unfolding srt len using ne by blast
qed

text \<open>
  The claim as stated fails in three ways. The vectors are single floats, and the distance
  of two of them is the absolute value of their difference (NaN when one of them is not
  finite); the query vector is 0.

  A KNN node as filter of a KNN node, with the docs 1, 2 and 3 at the vectors 1, 2 and 3:
  the inner \<open>KNN 2\<close> over all docs leaves its three pairs in \<^verbatim>\<open>distances_\<close>, the
  outer \<open>KNN 3\<close> appends the pairs of the two docs of its filter and takes the first
  three of the five, so the query returns the docs \<open>[1, 1, 2]\<close>: three docs, one of them
  twice, where the filter has two. The debug build and the release build agree.

  A KNN node with the limit 0 over the same docs: the AST contains a KNN node and no
  distances are returned.

  A NaN distance, with the docs 1, 2 and 3 at the vectors NaN, 5 and 0: by the distances
  the pair of doc 1 is less than no other pair and no other pair is less than it, so the
  doc ids decide and the pair comes first. \<open>KNN 1\<close> returns doc 1 at the distance NaN and
  leaves out doc 3 at the distance 0, and the distances of \<open>KNN 3\<close> do not ascend.
\<close>

theorem knn_nested_limit_nan_counterexample:
  "Search_query True (\<lambda>a b. case (a, b) of (Finite x, Finite y) \<Rightarrow> Finite \<bar>x - y\<bar> | _ \<Rightarrow> NaN)
     \<lparr>schema = [(''v'', \<lparr>sf_identifier = ''v'', sf_type = VECTOR\<rparr>)], all_ids = [1, 2, 3],
      indices = [''v'' \<mapsto> VectorIndex (\<lambda>doc. Finite (real doc))]\<rparr>
     (AstKnnNode 2 ''v'' (Finite 0) AstStarNode :: (nat, double) AstNode) =
     Inr \<lparr>ids = [1, 2], knn_distances = [Finite 1, Finite 2]\<rparr> \<and>
   Search_query True (\<lambda>a b. case (a, b) of (Finite x, Finite y) \<Rightarrow> Finite \<bar>x - y\<bar> | _ \<Rightarrow> NaN)
     \<lparr>schema = [(''v'', \<lparr>sf_identifier = ''v'', sf_type = VECTOR\<rparr>)], all_ids = [1, 2, 3],
      indices = [''v'' \<mapsto> VectorIndex (\<lambda>doc. Finite (real doc))]\<rparr>
     (AstKnnNode 3 ''v'' (Finite 0) (AstKnnNode 2 ''v'' (Finite 0) AstStarNode)
        :: (nat, double) AstNode) =
     Inr \<lparr>ids = [1, 1, 2], knn_distances = [Finite 1, Finite 1, Finite 2]\<rparr> \<and>
   Search_query False (\<lambda>a b. case (a, b) of (Finite x, Finite y) \<Rightarrow> Finite \<bar>x - y\<bar> | _ \<Rightarrow> NaN)
     \<lparr>schema = [(''v'', \<lparr>sf_identifier = ''v'', sf_type = VECTOR\<rparr>)], all_ids = [1, 2, 3],
      indices = [''v'' \<mapsto> VectorIndex (\<lambda>doc. Finite (real doc))]\<rparr>
     (AstKnnNode 3 ''v'' (Finite 0) (AstKnnNode 2 ''v'' (Finite 0) AstStarNode)
        :: (nat, double) AstNode) =
     Inr \<lparr>ids = [1, 1, 2], knn_distances = [Finite 1, Finite 1, Finite 2]\<rparr> \<and>
   contains_knn (AstKnnNode 0 ''v'' (Finite 0) AstStarNode :: (nat, double) AstNode) \<and>
   Search_query True (\<lambda>a b. case (a, b) of (Finite x, Finite y) \<Rightarrow> Finite \<bar>x - y\<bar> | _ \<Rightarrow> NaN)
     \<lparr>schema = [(''v'', \<lparr>sf_identifier = ''v'', sf_type = VECTOR\<rparr>)], all_ids = [1, 2, 3],
      indices = [''v'' \<mapsto> VectorIndex (\<lambda>doc. Finite (real doc))]\<rparr>
     (AstKnnNode 0 ''v'' (Finite 0) AstStarNode :: (nat, double) AstNode) =
     Inr \<lparr>ids = [], knn_distances = []\<rparr> \<and>
   Search_query True (\<lambda>a b. case (a, b) of (Finite x, Finite y) \<Rightarrow> Finite \<bar>x - y\<bar> | _ \<Rightarrow> NaN)
     \<lparr>schema = [(''v'', \<lparr>sf_identifier = ''v'', sf_type = VECTOR\<rparr>)], all_ids = [1, 2, 3],
      indices = [''v'' \<mapsto>
        VectorIndex (\<lambda>doc. if doc = 1 then NaN else if doc = 2 then Finite 5 else Finite 0)]\<rparr>
     (AstKnnNode 1 ''v'' (Finite 0) AstStarNode :: (nat, double) AstNode) =
     Inr \<lparr>ids = [1], knn_distances = [NaN]\<rparr> \<and>
   Search_query True (\<lambda>a b. case (a, b) of (Finite x, Finite y) \<Rightarrow> Finite \<bar>x - y\<bar> | _ \<Rightarrow> NaN)
     \<lparr>schema = [(''v'', \<lparr>sf_identifier = ''v'', sf_type = VECTOR\<rparr>)], all_ids = [1, 2, 3],
      indices = [''v'' \<mapsto>
        VectorIndex (\<lambda>doc. if doc = 1 then NaN else if doc = 2 then Finite 5 else Finite 0)]\<rparr>
     (AstKnnNode 3 ''v'' (Finite 0) AstStarNode :: (nat, double) AstNode) =
     Inr \<lparr>ids = [1, 3, 2], knn_distances = [NaN, Finite 0, Finite 5]\<rparr>"
  by code_simp

section \<open>C3: an increment whose sum is NaN\<close>

text \<open>
  C3, as the code has it. For a member \<open>m\<close> present with score \<open>s\<close>, \<open>Add\<close> with the
  INCR flag set, the NX flag clear and a delta \<open>d\<close> such that \<open>d + s\<close> is NaN returns
  0 with the output flags NAN, writes no new score and leaves the sorted set as it was, in
  the skiplist variant and in the B+tree variant; in a debug build of the B+tree variant the
  delta itself must not be NaN, as its \<^verbatim>\<open>DCHECK\<close> demands.
\<close>

theorem Add_incr_nan_unchanged:
  "(dict z m = Some s \<and> in_flags AND ZADD_IN_INCR \<noteq> 0 \<and> in_flags AND ZADD_IN_NX = 0 \<and>
    isnan (dadd d s) \<longrightarrow>
      RdImpl_Add d m in_flags z =
        Inr \<lparr>retval = 0, out_flags = ZADD_OUT_NAN, newscore = None, after = z\<rparr>) \<and>
   (score_map y m = Some s \<and> in_flags AND ZADD_IN_INCR \<noteq> 0 \<and> in_flags AND ZADD_IN_NX = 0 \<and>
    isnan (dadd d s) \<and> (dbg \<longrightarrow> \<not> isnan d) \<longrightarrow>
      DfImpl_Add dbg d m in_flags y =
        Inr \<lparr>retval = 0, out_flags = ZADD_OUT_NAN, newscore = None, after = y\<rparr>)"
  by (auto simp: RdImpl_Add_def DfImpl_Add_def Let_def)

text \<open>The witness: the member \<open>a\<close> has the score \<open>+inf\<close> and is incremented by
  \<open>-inf\<close>.\<close>

theorem Add_incr_nan_unchanged_witness:
  "RdImpl_Add NegInf ''a'' ZADD_IN_INCR \<lparr>dict = [''a'' \<mapsto> PosInf], zsl = [(PosInf, ''a'')]\<rparr> =
     Inr \<lparr>retval = 0, out_flags = ZADD_OUT_NAN, newscore = None,
          after = \<lparr>dict = [''a'' \<mapsto> PosInf], zsl = [(PosInf, ''a'')]\<rparr>\<rparr> \<and>
   DfImpl_Add True NegInf ''a'' ZADD_IN_INCR
       \<lparr>score_map = [''a'' \<mapsto> PosInf], score_tree = [(PosInf, ''a'')]\<rparr> =
     Inr \<lparr>retval = 0, out_flags = ZADD_OUT_NAN, newscore = None,
          after = \<lparr>score_map = [''a'' \<mapsto> PosInf], score_tree = [(PosInf, ''a'')]\<rparr>\<rparr>"
proof -
  let ?z = "\<lparr>dict = [''a'' \<mapsto> PosInf], zsl = [(PosInf, ''a'')]\<rparr>"
  let ?y = "\<lparr>score_map = [''a'' \<mapsto> PosInf], score_tree = [(PosInf, ''a'')]\<rparr>"
  have h: "dict ?z ''a'' = Some PosInf" "score_map ?y ''a'' = Some PosInf"
    "ZADD_IN_INCR AND ZADD_IN_INCR \<noteq> 0" "ZADD_IN_INCR AND ZADD_IN_NX = 0"
    "isnan (dadd NegInf PosInf)" "True \<longrightarrow> \<not> isnan NegInf"
    by (simp_all add: ZADD_IN_INCR_def ZADD_IN_NX_def)
  show ?thesis
    using Add_incr_nan_unchanged[of ?z "''a''" PosInf ZADD_IN_INCR NegInf ?y True] h by blast
qed

text \<open>
  The claim as stated fails when the NX flag is set with INCR: both variants test NX first
  and return 1 with the output flags NOP, whatever the sum is. And a debug build of the
  B+tree variant fails its \<^verbatim>\<open>DCHECK\<close> when the delta itself is NaN.
\<close>

theorem Add_incr_nx_counterexample:
  "(ZADD_IN_INCR OR ZADD_IN_NX) AND ZADD_IN_INCR \<noteq> 0 \<and>
   isnan (dadd NegInf PosInf) \<and>
   RdImpl_Add NegInf ''a'' (ZADD_IN_INCR OR ZADD_IN_NX)
       \<lparr>dict = [''a'' \<mapsto> PosInf], zsl = [(PosInf, ''a'')]\<rparr> =
     Inr \<lparr>retval = 1, out_flags = ZADD_OUT_NOP, newscore = None,
          after = \<lparr>dict = [''a'' \<mapsto> PosInf], zsl = [(PosInf, ''a'')]\<rparr>\<rparr> \<and>
   DfImpl_Add True NegInf ''a'' (ZADD_IN_INCR OR ZADD_IN_NX)
       \<lparr>score_map = [''a'' \<mapsto> PosInf], score_tree = [(PosInf, ''a'')]\<rparr> =
     Inr \<lparr>retval = 1, out_flags = ZADD_OUT_NOP, newscore = None,
          after = \<lparr>score_map = [''a'' \<mapsto> PosInf], score_tree = [(PosInf, ''a'')]\<rparr>\<rparr> \<and>
   isnan (dadd NaN (Finite 1)) \<and>
   DfImpl_Add True NaN ''a'' ZADD_IN_INCR
       \<lparr>score_map = [''a'' \<mapsto> Finite 1], score_tree = [(Finite 1, ''a'')]\<rparr> =
     Inl (DcheckFailed ''!isnan(score)'')"
  by (simp add: RdImpl_Add_def DfImpl_Add_def Let_def ZADD_IN_INCR_def ZADD_IN_NX_def)

section \<open>C7: the operations of the B+tree variant that are not written\<close>

text \<open>
  C7. Each of \<open>GetRange\<close>, \<open>GetLexRange\<close>, \<open>ToListPack\<close>, \<open>DeleteRangeByRank\<close>,
  \<open>DeleteRangeByScore\<close>, \<open>DeleteRangeByLex\<close> and \<open>LexCount\<close> of the B+tree variant ends
  in \<^verbatim>\<open>LOG(FATAL)\<close> on every input: none returns a value, an empty one or any other.
  \<open>ToListPack\<close> of a sorted set that holds the B+tree variant does the same.
\<close>

theorem DfImpl_stubs_are_fatal:
  "DfImpl_GetRange z range_spec offset limit reverse = Inl (Fatal ''TBD'') \<and>
   DfImpl_GetLexRange z lex_spec offset limit reverse = Inl (Fatal ''TBD'') \<and>
   DfImpl_ToListPack c z = Inl (Fatal ''TBD'') \<and>
   SortedMap_ToListPack c (Df z) = Inl (Fatal ''TBD'') \<and>
   DfImpl_DeleteRangeByRank z start end_rank = Inl (Fatal ''TBD'') \<and>
   DfImpl_DeleteRangeByScore z range_spec = Inl (Fatal ''TBD'') \<and>
   DfImpl_DeleteRangeByLex z lex_spec = Inl (Fatal ''TBD'') \<and>
   DfImpl_LexCount z lex_spec = Inl (Fatal ''TBD'')"
  by (simp add: DfImpl_GetRange_def DfImpl_GetLexRange_def DfImpl_ToListPack_def
      DfImpl_DeleteRangeByRank_def DfImpl_DeleteRangeByScore_def DfImpl_DeleteRangeByLex_def
      DfImpl_LexCount_def)

section \<open>C6: the order of the tagged comparison\<close>

lemma sdscmp_range: "sdscmp xs ys = - 1 \<or> sdscmp xs ys = 0 \<or> sdscmp xs ys = 1"
  by (induction xs ys rule: sdscmp.induct) auto

lemma sdscmp_less_iff: "sdscmp xs ys < 0 \<longleftrightarrow> bytes_less xs ys"
  unfolding bytes_less_def
  by (induction xs ys rule: sdscmp.induct) (auto simp: of_char_eq_iff)

lemma sdscmp_eq_iff: "sdscmp xs ys = 0 \<longleftrightarrow> xs = ys"
  by (induction xs ys rule: sdscmp.induct) (auto simp: of_char_eq_iff)

lemma sdscmp_greater_iff: "0 < sdscmp xs ys \<longleftrightarrow> sdscmp ys xs < 0"
  by (induction xs ys rule: sdscmp.induct) auto

lemma bytes_less_trans: "bytes_less xs ys \<Longrightarrow> bytes_less ys zs \<Longrightarrow> bytes_less xs zs"
proof -
  have t: "trans {(c :: char, d). (of_char c :: nat) < of_char d}"
    by (auto simp: trans_def)
  show "bytes_less xs ys \<Longrightarrow> bytes_less ys zs \<Longrightarrow> bytes_less xs zs"
    unfolding bytes_less_def using lexord_trans[OF _ _ t] by blast
qed

lemma bytes_less_irrefl: "\<not> bytes_less xs xs"
  using sdscmp_less_iff[of xs xs] sdscmp_eq_iff[of xs xs] by simp


lemma KeyCompareTo_untagged:
  "untagged a \<Longrightarrow> untagged b \<Longrightarrow> KeyCompareTo mem a b = obj_compare (mem a) (mem b)"
  by (simp add: KeyCompareTo_def untagged_def obj_compare_def GetObjScore_def Let_def)

lemma obj_compare_less_iff:
  assumes "\<not> isnan (fst x)" and "\<not> isnan (fst y)"
  shows "obj_compare x y < 0 \<longleftrightarrow> spec_score_member_less x y"
proof (cases "dless (fst x) (fst y)")
  case True
  then show ?thesis by (simp add: obj_compare_def spec_score_member_less_def)
next
  case False
  show ?thesis
  proof (cases "dless (fst y) (fst x)")
    case True
    then have "fst x \<noteq> fst y" using dless_irrefl by metis
    then show ?thesis
      using True False by (simp add: obj_compare_def spec_score_member_less_def)
  next
    case F2: False
    then have "fst x = fst y" using False dless_total[OF assms] by blast
    then show ?thesis
      using False F2 by (simp add: obj_compare_def spec_score_member_less_def sdscmp_less_iff)
  qed
qed

lemma obj_compare_eq_iff:
  assumes "\<not> isnan (fst x)" and "\<not> isnan (fst y)"
  shows "obj_compare x y = 0 \<longleftrightarrow> x = y"
proof (cases "dless (fst x) (fst y) \<or> dless (fst y) (fst x)")
  case True
  then have "fst x \<noteq> fst y" using dless_irrefl by metis
  then have "x \<noteq> y" by auto
  then show ?thesis using True by (auto simp: obj_compare_def)
next
  case False
  then have "fst x = fst y" using dless_total[OF assms] by blast
  then show ?thesis
    using False by (auto simp: obj_compare_def sdscmp_eq_iff prod_eq_iff)
qed

lemma obj_compare_greater_iff: "0 < obj_compare x y \<longleftrightarrow> obj_compare y x < 0"
  using dless_asym[of "fst x" "fst y"] sdscmp_greater_iff[of "snd x" "snd y"]
  by (auto simp: obj_compare_def)

lemma spec_score_member_less_trans:
  "spec_score_member_less x y \<Longrightarrow> spec_score_member_less y z \<Longrightarrow> spec_score_member_less x z"
  unfolding spec_score_member_less_def
  using dless_trans[of "fst x" "fst y" "fst z"] bytes_less_trans[of "snd x" "snd y" "snd z"]
  by auto

lemma spec_score_member_less_asym:
  "spec_score_member_less x y \<Longrightarrow> \<not> spec_score_member_less y x"
  unfolding spec_score_member_less_def
  using dless_asym[of "fst x" "fst y"] dless_irrefl[of "fst x"]
    bytes_less_trans[of "snd x" "snd y" "snd x"] bytes_less_irrefl[of "snd x"]
  by auto

text \<open>
  C6. \<open>KeyCompareTo\<close> compares two keys in three steps: when neither carries the
  IGNORE_SCORE tag and one score is less than the other, the scores decide; else a first key
  with the INF tag is greater, else a second key with the INF tag makes the first less; else
  the members are compared by \<^verbatim>\<open>sdscmp\<close>. On keys without tags whose scores are not NaN
  the result is negative, zero or positive as the first object is before, equal to or after
  the second in the order of the specification by (score, member bytes), and the comparison
  is transitive, total and asymmetric: a strict total order of the objects.
\<close>

theorem KeyCompareTo_score_inf_member:
  "KeyCompareTo mem a b =
     (if a AND kIgnoreDoubleTag = 0 \<and> b AND kIgnoreDoubleTag = 0 \<and>
         dless (GetObjScore mem (a AND kSdsMask)) (GetObjScore mem (b AND kSdsMask)) then - 1
      else if a AND kIgnoreDoubleTag = 0 \<and> b AND kIgnoreDoubleTag = 0 \<and>
         dless (GetObjScore mem (b AND kSdsMask)) (GetObjScore mem (a AND kSdsMask)) then 1
      else if a AND kInfTag \<noteq> 0 then 1
      else if b AND kInfTag \<noteq> 0 then - 1
      else sdscmp (snd (mem (a AND kSdsMask))) (snd (mem (b AND kSdsMask)))) \<and>
   (untagged a \<and> untagged b \<and> untagged c \<and>
    \<not> isnan (fst (mem a)) \<and> \<not> isnan (fst (mem b)) \<and> \<not> isnan (fst (mem c)) \<longrightarrow>
      (KeyCompareTo mem a b < 0 \<longleftrightarrow> spec_score_member_less (mem a) (mem b)) \<and>
      (KeyCompareTo mem a b = 0 \<longleftrightarrow> mem a = mem b) \<and>
      (0 < KeyCompareTo mem a b \<longleftrightarrow> spec_score_member_less (mem b) (mem a)) \<and>
      (KeyCompareTo mem a b < 0 \<and> KeyCompareTo mem b c < 0 \<longrightarrow> KeyCompareTo mem a c < 0) \<and>
      (KeyCompareTo mem a b < 0 \<or> KeyCompareTo mem a b = 0 \<or> KeyCompareTo mem b a < 0) \<and>
      \<not> (KeyCompareTo mem a b < 0 \<and> KeyCompareTo mem b a < 0))"
proof -
  have steps: "KeyCompareTo mem a b =
     (if a AND kIgnoreDoubleTag = 0 \<and> b AND kIgnoreDoubleTag = 0 \<and>
         dless (GetObjScore mem (a AND kSdsMask)) (GetObjScore mem (b AND kSdsMask)) then - 1
      else if a AND kIgnoreDoubleTag = 0 \<and> b AND kIgnoreDoubleTag = 0 \<and>
         dless (GetObjScore mem (b AND kSdsMask)) (GetObjScore mem (a AND kSdsMask)) then 1
      else if a AND kInfTag \<noteq> 0 then 1
      else if b AND kInfTag \<noteq> 0 then - 1
      else sdscmp (snd (mem (a AND kSdsMask))) (snd (mem (b AND kSdsMask))))"
    by (simp add: KeyCompareTo_def Let_def)
  have order: "(KeyCompareTo mem a b < 0 \<longleftrightarrow> spec_score_member_less (mem a) (mem b)) \<and>
      (KeyCompareTo mem a b = 0 \<longleftrightarrow> mem a = mem b) \<and>
      (0 < KeyCompareTo mem a b \<longleftrightarrow> spec_score_member_less (mem b) (mem a)) \<and>
      (KeyCompareTo mem a b < 0 \<and> KeyCompareTo mem b c < 0 \<longrightarrow> KeyCompareTo mem a c < 0) \<and>
      (KeyCompareTo mem a b < 0 \<or> KeyCompareTo mem a b = 0 \<or> KeyCompareTo mem b a < 0) \<and>
      \<not> (KeyCompareTo mem a b < 0 \<and> KeyCompareTo mem b a < 0)"
    if u: "untagged a" "untagged b" "untagged c"
      and n: "\<not> isnan (fst (mem a))" "\<not> isnan (fst (mem b))" "\<not> isnan (fst (mem c))"
  proof -
    have ab: "KeyCompareTo mem a b = obj_compare (mem a) (mem b)"
      and ba: "KeyCompareTo mem b a = obj_compare (mem b) (mem a)"
      and bc: "KeyCompareTo mem b c = obj_compare (mem b) (mem c)"
      and ac: "KeyCompareTo mem a c = obj_compare (mem a) (mem c)"
      using u by (simp_all add: KeyCompareTo_untagged)
    have l1: "KeyCompareTo mem a b < 0 \<longleftrightarrow> spec_score_member_less (mem a) (mem b)"
      unfolding ab by (rule obj_compare_less_iff[OF n(1) n(2)])
    have l2: "KeyCompareTo mem a b = 0 \<longleftrightarrow> mem a = mem b"
      unfolding ab by (rule obj_compare_eq_iff[OF n(1) n(2)])
    have l3: "0 < KeyCompareTo mem a b \<longleftrightarrow> spec_score_member_less (mem b) (mem a)"
      unfolding ab using obj_compare_greater_iff[of "mem a" "mem b"]
        obj_compare_less_iff[OF n(2) n(1)] by simp
    have l4: "KeyCompareTo mem a b < 0 \<and> KeyCompareTo mem b c < 0 \<longrightarrow> KeyCompareTo mem a c < 0"
      unfolding ab bc ac
      using obj_compare_less_iff[OF n(1) n(2)] obj_compare_less_iff[OF n(2) n(3)]
        obj_compare_less_iff[OF n(1) n(3)]
        spec_score_member_less_trans[of "mem a" "mem b" "mem c"] by blast
    have l5: "KeyCompareTo mem a b < 0 \<or> KeyCompareTo mem a b = 0 \<or> KeyCompareTo mem b a < 0"
      unfolding ab ba using obj_compare_greater_iff[of "mem a" "mem b"] by linarith
    have l6: "\<not> (KeyCompareTo mem a b < 0 \<and> KeyCompareTo mem b a < 0)"
      unfolding ab ba using obj_compare_greater_iff[of "mem a" "mem b"] by linarith
    show ?thesis using l1 l2 l3 l4 l5 l6 by blast
  qed
  show ?thesis using steps order by blast
qed

text \<open>The witness: three objects at the addresses 16, 32 and 48.\<close>

theorem KeyCompareTo_score_inf_member_witness:
  "untagged 16 \<and> untagged 32 \<and> untagged 48 \<and>
   KeyCompareTo (\<lambda>p. if p = 16 then (Finite 1, ''a'') else if p = 32 then (Finite 1, ''b'')
                      else (Finite 2, ''a'')) 16 32 = - 1 \<and>
   KeyCompareTo (\<lambda>p. if p = 16 then (Finite 1, ''a'') else if p = 32 then (Finite 1, ''b'')
                      else (Finite 2, ''a'')) 32 48 = - 1 \<and>
   KeyCompareTo (\<lambda>p. if p = 16 then (Finite 1, ''a'') else if p = 32 then (Finite 1, ''b'')
                      else (Finite 2, ''a'')) (16 OR kInfTag) 32 = 1 \<and>
   KeyCompareTo (\<lambda>p. if p = 16 then (Finite 1, ''a'') else if p = 32 then (Finite 1, ''b'')
                      else (Finite 2, ''a'')) (48 OR kIgnoreDoubleTag) 32 = - 1 \<and>
   spec_score_member_less (Finite 1, ''a'') (Finite 1, ''b'')"
proof -
  let ?mem = "\<lambda>p :: 64 word. if p = 16 then (Finite 1, ''a'') else if p = 32 then (Finite 1, ''b'')
                      else (Finite 2, ''a'')"
  have u: "untagged 16" "untagged 32" "untagged 48"
    by (simp_all add: untagged_def kInfTag_def kIgnoreDoubleTag_def kSdsMask_def)
  have n: "\<not> isnan (fst (?mem 16))" "\<not> isnan (fst (?mem 32))" "\<not> isnan (fst (?mem 48))"
    by simp_all
  have v: "KeyCompareTo ?mem 16 32 = - 1" "KeyCompareTo ?mem 32 48 = - 1"
    using u by (simp_all add: KeyCompareTo_untagged obj_compare_def)
  have t: "KeyCompareTo ?mem (16 OR kInfTag) 32 = 1"
    "KeyCompareTo ?mem (48 OR kIgnoreDoubleTag) 32 = - 1"
    by (simp_all add: KeyCompareTo_def GetObjScore_def Let_def kInfTag_def kIgnoreDoubleTag_def
        kSdsMask_def)
  have "KeyCompareTo ?mem 16 32 < 0 \<longleftrightarrow> spec_score_member_less (?mem 16) (?mem 32)"
    using KeyCompareTo_score_inf_member[of ?mem 16 32 48] u n by blast
  then have "spec_score_member_less (Finite 1, ''a'') (Finite 1, ''b'')"
    using v(1) by simp
  then show ?thesis using u v t by simp
qed

section \<open>C5: a sorted set through a listpack and back\<close>

lemma ToListPack_loop_concat:
  "ToListPack_loop c nodes lp =
     lp @ concat (map (\<lambda>(score, ele). [lpAppend_entry c ele, lpAppend_entry c (d2string c score)])
                      nodes)"
  by (induction nodes arbitrary: lp) (auto simp: zzlInsertAt_def Let_def)

lemma zslInsert_at_end:
  "\<forall>x \<in> set l. zsl_before x (score, ele) \<Longrightarrow> zslInsert l score ele = l @ [(score, ele)]"
  by (induction l) auto

lemma map_of_snoc_fresh:
  "k \<notin> fst ` set xs \<Longrightarrow> map_of (xs @ [(k, v)]) = (map_of xs)(k \<mapsto> v)"
proof
  fix x
  assume k: "k \<notin> fst ` set xs"
  then have n: "map_of xs k = None" by (simp add: map_of_eq_None_iff)
  show "map_of (xs @ [(k, v)]) x = ((map_of xs)(k \<mapsto> v)) x"
    using n by (cases "x = k") (auto simp: map_add_def split: option.splits)
qed

lemma FromListPack_loop_Rd:
  assumes "\<forall>(score, ele) \<in> set nodes.
             zzlGetScore c (lpAppend_entry c (d2string c score)) = score \<and>
             entry_to_sds c (lpAppend_entry c ele) = ele"
    and "sorted_wrt zsl_before (pre @ nodes)"
    and "distinct (map snd (pre @ nodes))"
  shows "FromListPack_loop dbg c
           (concat (map (\<lambda>(score, ele). [lpAppend_entry c ele, lpAppend_entry c (d2string c score)])
                        nodes))
           (Rd \<lparr>dict = map_of (map (\<lambda>(score, ele). (ele, score)) pre), zsl = pre\<rparr>) =
         Inr (Rd \<lparr>dict = map_of (map (\<lambda>(score, ele). (ele, score)) (pre @ nodes)),
                  zsl = pre @ nodes\<rparr>)"
  using assms
proof (induction nodes arbitrary: pre)
  case Nil
  then show ?case by simp
next
  case (Cons node nodes)
  obtain score ele where node: "node = (score, ele)" by (cases node)
  have codec: "zzlGetScore c (lpAppend_entry c (d2string c score)) = score"
    "entry_to_sds c (lpAppend_entry c ele) = ele"
    using Cons.prems(1) node by auto
  have before: "\<forall>x \<in> set pre. zsl_before x (score, ele)"
    using Cons.prems(2) node by (auto simp: sorted_wrt_append)
  have ins: "zslInsert pre score ele = pre @ [(score, ele)]"
    using zslInsert_at_end[OF before] .
  have fresh: "ele \<notin> fst ` set (map (\<lambda>(score, ele). (ele, score)) pre)"
    using Cons.prems(3) node by (auto simp: image_iff)
  then have none: "map_of (map (\<lambda>(score, ele). (ele, score)) pre) ele = None"
    by (simp add: map_of_eq_None_iff)
  have upd: "(map_of (map (\<lambda>(score, ele). (ele, score)) pre))(ele \<mapsto> score) =
      map_of (map (\<lambda>(score, ele). (ele, score)) (pre @ [(score, ele)]))"
    using map_of_snoc_fresh[OF fresh, of score] by simp
  have step: "SortedMap_Insert dbg score ele
      (Rd \<lparr>dict = map_of (map (\<lambda>(score, ele). (ele, score)) pre), zsl = pre\<rparr>) =
      Inr (True, Rd \<lparr>dict = map_of (map (\<lambda>(score, ele). (ele, score)) (pre @ [(score, ele)])),
                      zsl = pre @ [(score, ele)]\<rparr>)"
    using none ins upd by (simp add: RdImpl_Insert_def Let_def)
  have IH: "FromListPack_loop dbg c
           (concat (map (\<lambda>(score, ele). [lpAppend_entry c ele, lpAppend_entry c (d2string c score)])
                        nodes))
           (Rd \<lparr>dict = map_of (map (\<lambda>(score, ele). (ele, score)) (pre @ [(score, ele)])),
                zsl = pre @ [(score, ele)]\<rparr>) =
         Inr (Rd \<lparr>dict = map_of (map (\<lambda>(score, ele). (ele, score)) ((pre @ [(score, ele)]) @ nodes)),
                  zsl = (pre @ [(score, ele)]) @ nodes\<rparr>)"
    using Cons.IH[of "pre @ [(score, ele)]"] Cons.prems node by simp
  show ?case
    using step IH codec node by (simp del: SortedMap_Insert.simps)
qed


text \<open>
  C5, as the code has it. For a sorted set of the skiplist variant whose nodes ascend
  strictly by (score, member), whose members are distinct, whose dictionary holds the score
  of every node, and whose scores and members the listpack encoding gives back as they were
  (the text \<^verbatim>\<open>d2string\<close> renders of a score reads back as that score): \<open>ToListPack\<close>
  writes every node, member then score, in ascending order, and \<open>FromListPack\<close> of the
  result, constructing the skiplist variant, is the sorted set itself, with the same nodes
  in the same order and the same dictionary.
\<close>

theorem listpack_round_trip_skiplist:
  assumes "sorted_wrt zsl_before (zsl z)"
    and "distinct (map snd (zsl z))"
    and "dict z = map_of (map (\<lambda>(score, ele). (ele, score)) (zsl z))"
    and "\<forall>(score, ele) \<in> set (zsl z).
           zzlGetScore c (lpAppend_entry c (d2string c score)) = score \<and>
           entry_to_sds c (lpAppend_entry c ele) = ele"
  shows "SortedMap_ToListPack c (Rd z) =
           Inr (concat (map (\<lambda>(score, ele).
                  [lpAppend_entry c ele, lpAppend_entry c (d2string c score)]) (zsl z))) \<and>
         listpack_round_trip dbg c False (Rd z) = Inr (Rd z)"
proof -
  let ?lp = "concat (map (\<lambda>(score, ele).
                  [lpAppend_entry c ele, lpAppend_entry c (d2string c score)]) (zsl z))"
  have tl: "SortedMap_ToListPack c (Rd z) = Inr ?lp"
    by (simp add: RdImpl_ToListPack_def ToListPack_loop_concat)
  have "FromListPack_loop dbg c ?lp
          (Rd \<lparr>dict = map_of (map (\<lambda>(score, ele). (ele, score)) []), zsl = []\<rparr>) =
        Inr (Rd \<lparr>dict = map_of (map (\<lambda>(score, ele). (ele, score)) ([] @ zsl z)),
                 zsl = [] @ zsl z\<rparr>)"
    using FromListPack_loop_Rd[of "zsl z" c "[]" dbg] assms(1,2,4) by simp
  then have "FromListPack dbg c False ?lp = Inr (Rd \<lparr>dict = dict z, zsl = zsl z\<rparr>)"
    using assms(3) by (simp add: FromListPack_def SortedMap_new_def)
  then have "listpack_round_trip dbg c False (Rd z) = Inr (Rd z)"
    unfolding listpack_round_trip_def tl by simp
  then show ?thesis using tl by simp
qed

text \<open>The witness: the members \<open>a\<close> and \<open>b\<close> with the scores 1 and 2, and a codec that
  stores strings as they are and renders the scores 1 and 2 as \<open>1\<close> and \<open>2\<close>.\<close>

theorem listpack_round_trip_skiplist_witness:
  "listpack_round_trip True
     \<lparr>lpAppend_entry = LpString,
      d2string = (\<lambda>d. if d = Finite 1 then ''1'' else if d = Finite 2 then ''2'' else ''nan''),
      zzlGetScore = (\<lambda>e. if e = LpString ''1'' then Finite 1
                         else if e = LpString ''2'' then Finite 2 else NaN),
      sdsfromlonglong = (\<lambda>n. [])\<rparr>
     False
     (Rd \<lparr>dict = map_of [(''a'', Finite 1), (''b'', Finite 2)],
          zsl = [(Finite 1, ''a''), (Finite 2, ''b'')]\<rparr>) =
   Inr (Rd \<lparr>dict = map_of [(''a'', Finite 1), (''b'', Finite 2)],
            zsl = [(Finite 1, ''a''), (Finite 2, ''b'')]\<rparr>)"
proof -
  let ?c = "\<lparr>lpAppend_entry = LpString,
      d2string = (\<lambda>d. if d = Finite 1 then ''1'' else if d = Finite 2 then ''2'' else ''nan''),
      zzlGetScore = (\<lambda>e. if e = LpString ''1'' then Finite 1
                         else if e = LpString ''2'' then Finite 2 else NaN),
      sdsfromlonglong = (\<lambda>n. [])\<rparr>"
  let ?z = "\<lparr>dict = map_of [(''a'', Finite 1), (''b'', Finite 2)],
          zsl = [(Finite 1, ''a''), (Finite 2, ''b'')]\<rparr>"
  have h1: "sorted_wrt zsl_before (zsl ?z)" by (simp add: zsl_before_def)
  have h2: "distinct (map snd (zsl ?z))" by simp
  have h3: "dict ?z = map_of (map (\<lambda>(score, ele). (ele, score)) (zsl ?z))" by simp
  have h4: "\<forall>(score, ele) \<in> set (zsl ?z).
           zzlGetScore ?c (lpAppend_entry ?c (d2string ?c score)) = score \<and>
           entry_to_sds ?c (lpAppend_entry ?c ele) = ele"
    by (simp add: entry_to_sds_def)
  show ?thesis
    using listpack_round_trip_skiplist[OF h1 h2 h3 h4, of True] by simp
qed

text \<open>
  The claim as stated fails for a sorted set of the B+tree variant: its \<open>ToListPack\<close> is
  not written and ends the process, so there is no listpack to read back.
\<close>

theorem listpack_round_trip_tree_counterexample:
  "listpack_round_trip True
     \<lparr>lpAppend_entry = LpString,
      d2string = (\<lambda>d. if d = Finite 1 then ''1'' else if d = Finite 2 then ''2'' else ''nan''),
      zzlGetScore = (\<lambda>e. if e = LpString ''1'' then Finite 1
                         else if e = LpString ''2'' then Finite 2 else NaN),
      sdsfromlonglong = (\<lambda>n. [])\<rparr>
     True
     (Df \<lparr>score_map = map_of [(''a'', Finite 1)], score_tree = [(Finite 1, ''a'')]\<rparr>) =
   Inl (Fatal ''TBD'')"
  by (simp add: listpack_round_trip_def DfImpl_ToListPack_def)

section \<open>C9: the reply to a KNN search\<close>

text \<open>
  C9 at an input the code does not handle: one shard returns three docs for a query
  \<open>KNN 5\<close> with the default \<open>LIMIT 0 10\<close>. The middle of the partial sort is
  \<open>min (0 + 10) 5 = 5\<close>, past the end of the three docs, whatever the partial sort is:
  the call is undefined behaviour, and no reply sorted by distance and cut to the window
  is specified. The statements after the call clamp by the number of docs
  (\<^verbatim>\<open>min(docs.size(), knn_limit)\<close>, \<^verbatim>\<open>min(docs.size(), params.limit_offset)\<close>); the
  middle of the partial sort is not clamped.
\<close>

theorem ReplyKnn_fewer_docs_than_limit:
  "ReplyKnn psort 5 \<lparr>limit_offset = 0, limit_total = 10\<rparr>
     [[\<lparr>doc_key = ''doc:1'', knn_distance = Finite 1\<rparr>,
       \<lparr>doc_key = ''doc:2'', knn_distance = Finite 3\<rparr>,
       \<lparr>doc_key = ''doc:3'', knn_distance = Finite 2\<rparr>]] =
   Inl (UndefinedBehaviour ''partial_sort: middle > last'')"
  by (simp add: ReplyKnn_def Let_def)


end
